theory Spec2Isabelle
  imports Main
begin

section \<open>Text\<close>

text \<open>
  A Python \<open>str\<close> is a sequence of Unicode code points, so text is modelled as a list of
  code points (natural numbers).  \<open>str\<close> turns an ASCII literal into such a list.
\<close>

type_synonym pystr = "nat list"

definition str :: "string \<Rightarrow> pystr" where
  "str s = map of_char s"

text \<open>
  The characters \<open>str.strip()\<close> removes and the class \<open>\s\<close> of a \<open>str\<close> pattern are the
  same set (CPython's \<open>Py_UNICODE_ISSPACE\<close>): U+0009..U+000D, U+001C..U+0020, U+0085,
  U+00A0, U+1680, U+2000..U+200A, U+2028, U+2029, U+202F, U+205F, U+3000.
\<close>

definition is_space :: "nat \<Rightarrow> bool" where
  "is_space c \<longleftrightarrow>
     (9 \<le> c \<and> c \<le> 13) \<or> (28 \<le> c \<and> c \<le> 32) \<or> c = 133 \<or> c = 160 \<or> c = 5760 \<or>
     (8192 \<le> c \<and> c \<le> 8202) \<or> c = 8232 \<or> c = 8233 \<or> c = 8239 \<or> c = 8287 \<or> c = 12288"

text \<open>\<open>s.strip()\<close>\<close>

definition strip :: "pystr \<Rightarrow> pystr" where
  "strip s = rev (dropWhile is_space (rev (dropWhile is_space s)))"

text \<open>\<open>s.split("\n")\<close>: the result is never empty.\<close>

fun split_nl :: "pystr \<Rightarrow> pystr list" where
  "split_nl [] = [[]]"
| "split_nl (c # s) =
     (if c = 10 then [] # split_nl s
      else (case split_nl s of [] \<Rightarrow> [[c]] | l # ls \<Rightarrow> (c # l) # ls))"

text \<open>\<open>"\n".join(lines)\<close>\<close>

fun join_nl :: "pystr list \<Rightarrow> pystr" where
  "join_nl [] = []"
| "join_nl [l] = l"
| "join_nl (l # ls) = l @ 10 # join_nl ls"

text \<open>\<open>sub in s\<close>\<close>

fun starts_with :: "pystr \<Rightarrow> pystr \<Rightarrow> bool" where
  "starts_with [] s = True"
| "starts_with (p # ps) [] = False"
| "starts_with (p # ps) (c # s) = (p = c \<and> starts_with ps s)"

fun contains :: "pystr \<Rightarrow> pystr \<Rightarrow> bool" where
  "contains sub [] = (sub = [])"
| "contains sub (c # s) = (starts_with sub (c # s) \<or> contains sub s)"

section \<open>Regular expressions\<close>

text \<open>
  The patterns of the source are sequences of anchors, single character classes, greedy
  stars over a character class and one choice between two literals.  \<open>Bol\<close> and \<open>Eol\<close>
  are \<open>^\<close> and \<open>$\<close> under the flag \<open>(?m)\<close>: \<open>^\<close> holds at the start of the text and after
  every \<open>\n\<close>, \<open>$\<close> at the end of the text and before every \<open>\n\<close>.
\<close>

type_synonym cls = "nat \<Rightarrow> bool"

datatype atom = Bol | Eol | One cls | Many cls | Either "cls list" "cls list"

text \<open>
  A literal: every class must accept the next character.  The result is the last
  character read (for the anchors that follow) and the rest of the text.
\<close>

fun lit_match :: "cls list \<Rightarrow> nat option \<Rightarrow> pystr \<Rightarrow> (nat option \<times> pystr) option" where
  "lit_match [] prev s = Some (prev, s)"
| "lit_match (p # ps) prev [] = None"
| "lit_match (p # ps) prev (c # s) = (if p c then lit_match ps (Some c) s else None)"

text \<open>
  The backtracking matcher, started at one position: \<open>prev\<close> is the character before
  the position (\<open>None\<close> at the start of the text), \<open>s\<close> the text from the position on.
  A star takes as many characters as it can and gives them back one at a time; of two
  alternatives the left one is tried first.  The result is the end of the first match
  found in that order.
\<close>

fun rx_match :: "atom list \<Rightarrow> nat option \<Rightarrow> pystr \<Rightarrow> (nat option \<times> pystr) option" where
  "rx_match [] prev s = Some (prev, s)"
| "rx_match (Bol # r) prev s =
     (if prev = None \<or> prev = Some 10 then rx_match r prev s else None)"
| "rx_match (Eol # r) prev s =
     (case s of [] \<Rightarrow> rx_match r prev s
      | c # s' \<Rightarrow> if c = 10 then rx_match r prev s else None)"
| "rx_match (One p # r) prev s =
     (case s of [] \<Rightarrow> None
      | c # s' \<Rightarrow> if p c then rx_match r (Some c) s' else None)"
| "rx_match (Many p # r) prev s =
     (case s of [] \<Rightarrow> rx_match r prev s
      | c # s' \<Rightarrow>
          if p c then
            (case rx_match (Many p # r) (Some c) s' of
               Some m \<Rightarrow> Some m
             | None \<Rightarrow> rx_match r prev s)
          else rx_match r prev s)"
| "rx_match (Either a b # r) prev s =
     (case lit_match a prev s of
        None \<Rightarrow>
          (case lit_match b prev s of
             None \<Rightarrow> None
           | Some (prev', s') \<Rightarrow> rx_match r prev' s')
      | Some (prev', s') \<Rightarrow>
          (case rx_match r prev' s' of
             Some m \<Rightarrow> Some m
           | None \<Rightarrow>
               (case lit_match b prev s of
                  None \<Rightarrow> None
                | Some (prev', s') \<Rightarrow> rx_match r prev' s')))"

text \<open>\<open>pattern.match(s)\<close> is truthy when the pattern matches at the start of \<open>s\<close>.\<close>

definition re_match :: "atom list \<Rightarrow> pystr \<Rightarrow> bool" where
  "re_match r s \<longleftrightarrow> rx_match r None s \<noteq> None"

text \<open>\<open>pattern.search(s)\<close> is truthy when the pattern matches at some position of \<open>s\<close>.\<close>

fun search_from :: "atom list \<Rightarrow> nat option \<Rightarrow> pystr \<Rightarrow> bool" where
  "search_from r prev [] = (rx_match r prev [] \<noteq> None)"
| "search_from r prev (c # s) = (rx_match r prev (c # s) \<noteq> None \<or> search_from r (Some c) s)"

definition re_search :: "atom list \<Rightarrow> pystr \<Rightarrow> bool" where
  "re_search r s = search_from r None s"

text \<open>
  \<open>re.sub(pattern, "", s)\<close>: the leftmost match is cut out and the scan goes on behind
  it.  The one pattern this is used with takes at least three characters wherever it
  matches; after a match of no characters the model moves on by one character.
\<close>

fun sub_from :: "atom list \<Rightarrow> nat option \<Rightarrow> pystr \<Rightarrow> pystr" where
  "sub_from r prev [] = []"
| "sub_from r prev (c # s) =
     (case rx_match r prev (c # s) of
        None \<Rightarrow> c # sub_from r (Some c) s
      | Some (prev', s') \<Rightarrow>
          if length s' \<le> length s then sub_from r prev' s'
          else c # sub_from r (Some c) s)"

definition re_sub_empty :: "atom list \<Rightarrow> pystr \<Rightarrow> pystr" where
  "re_sub_empty r s = sub_from r None s"

text \<open>
  Under the flag \<open>(?i)\<close> a literal ASCII letter of a pattern also accepts its capital
  and the characters whose case folding is that letter: U+0130 and U+0131 for \<open>i\<close>,
  U+017F for \<open>s\<close>, U+212A for \<open>k\<close>.  Any other literal accepts itself only.
\<close>

definition ci :: "nat \<Rightarrow> cls" where
  "ci p c \<longleftrightarrow>
     c = p \<or> (97 \<le> p \<and> p \<le> 122 \<and> c + 32 = p) \<or>
     (p = 105 \<and> (c = 304 \<or> c = 305)) \<or> (p = 115 \<and> c = 383) \<or> (p = 107 \<and> c = 8490)"

definition ci_lit :: "string \<Rightarrow> cls list" where
  "ci_lit s = map ci (str s)"

text \<open>\<open>PROMPT_REGEX = r"(?m)^[^\n\r]*[#$]\s*$"\<close>\<close>

definition PROMPT_REGEX :: "atom list" where
  "PROMPT_REGEX =
     [Bol, Many (\<lambda>c. c \<noteq> 10 \<and> c \<noteq> 13), One (\<lambda>c. c = 35 \<or> c = 36), Many is_space, Eol]"

text \<open>\<open>LOGIN_REGEX = r"(?im)^\s*(login|username)\s*:\s*$"\<close>\<close>

definition LOGIN_REGEX :: "atom list" where
  "LOGIN_REGEX =
     [Bol, Many is_space, Either (ci_lit ''login'') (ci_lit ''username''),
      Many is_space, One (ci 58), Many is_space, Eol]"

text \<open>\<open>PASSWORD_REGEX = r"(?im)^\s*password\s*:\s*$"\<close>\<close>

definition PASSWORD_REGEX :: "atom list" where
  "PASSWORD_REGEX =
     [Bol, Many is_space] @ map One (ci_lit ''password'') @
     [Many is_space, One (ci 58), Many is_space, Eol]"

text \<open>\<open>re.search(r"activate this console", buf, flags=re.I)\<close>\<close>

definition ACTIVATE_REGEX :: "atom list" where
  "ACTIVATE_REGEX = map One (ci_lit ''activate this console'')"

text \<open>
  \<open>r"\x1B\[[0-?]*[ -/]*[@-~]"\<close>: an ANSI CSI sequence, that is ESC, \<open>[\<close>, parameter
  characters, intermediate characters and a final character.
\<close>

definition ANSI_REGEX :: "atom list" where
  "ANSI_REGEX =
     [One (\<lambda>c. c = 27), One (\<lambda>c. c = 91), Many (\<lambda>c. 48 \<le> c \<and> c \<le> 63),
      Many (\<lambda>c. 32 \<le> c \<and> c \<le> 47), One (\<lambda>c. 64 \<le> c \<and> c \<le> 126)]"

section \<open>Cleaning a transcript\<close>

text \<open>
  Lines 165 to 176 of \<open>ShellExecutor.run\<close> (the same statements end \<open>SerialShell.run_cmd\<close>):
  \<^verbatim>\<open>
  text = re.sub(r"\x1B\[[0-?]*[ -/]*[@-~]", "", collected).replace("\r", "")
  lines = text.split("\n")
  if lines and lines[0].strip() == cmd:
      lines = lines[1:]
  while lines and self.prompt_re.match(lines[-1] + "\n"):
      lines = lines[:-1]
  out = "\n".join(lines).strip()
  \<close>
\<close>

definition sanitize :: "pystr \<Rightarrow> pystr" where
  "sanitize collected = filter (\<lambda>c. c \<noteq> 13) (re_sub_empty ANSI_REGEX collected)"

definition drop_echo :: "pystr \<Rightarrow> pystr list \<Rightarrow> pystr list" where
  "drop_echo cmd lines =
     (case lines of [] \<Rightarrow> lines
      | l # ls \<Rightarrow> if strip l = cmd then ls else lines)"

function drop_prompts :: "pystr list \<Rightarrow> pystr list" where
  "drop_prompts lines =
     (if lines \<noteq> [] \<and> re_match PROMPT_REGEX (last lines @ [10])
      then drop_prompts (butlast lines) else lines)"
  by pat_completeness auto
termination
  by (relation "measure length") auto

declare drop_prompts.simps [simp del]

definition clean_output :: "pystr \<Rightarrow> pystr \<Rightarrow> pystr" where
  "clean_output cmd collected =
     strip (join_nl (drop_prompts (drop_echo cmd (split_nl (sanitize collected)))))"

section \<open>The serial port, the clock and the executor\<close>

text \<open>
  The serial port is a machine with a state of type \<open>'s\<close>.  \<open>dev_read\<close> is
  \<open>ser.read(READ_CHUNK)\<close> followed by the decoding: it gives the decoded text, the time
  the call took in milliseconds and the next state.  \<open>dev_write\<close> is \<open>ser.write\<close> and
  \<open>dev_reset\<close> is \<open>ser.reset_input_buffer\<close>.
\<close>

record 's device =
  dev_read :: "'s \<Rightarrow> pystr \<times> nat \<times> 's"
  dev_write :: "pystr \<Rightarrow> 's \<Rightarrow> 's"
  dev_reset :: "'s \<Rightarrow> 's"

datatype event = Wrote pystr | Read pystr | ResetInput

text \<open>
  The executor object with its surroundings: \<open>ser\<close> is \<open>self.ser\<close> (\<open>None\<close> when no
  session is open, else the state of the port), \<open>clock\<close> is what \<open>time.time()\<close> returns,
  in milliseconds, and \<open>io\<close> lists every call made on the port.  Time passes in
  \<open>time.sleep\<close> and in \<open>ser.read\<close> only, and arithmetic on times is exact.  The
  port itself never raises, and there is one thread, so the lock of \<open>run\<close> is left out.
  \<open>write_str\<close> is \<open>_write\<close>, \<open>read_some\<close> is \<open>_read_some\<close>, \<open>drain\<close> is \<open>_drain\<close>.
\<close>

record 's shell =
  ser :: "'s option"
  username :: pystr
  password :: pystr
  clock :: int
  io :: "event list"

datatype error = RuntimeError pystr

definition sleep :: "int \<Rightarrow> 's shell \<Rightarrow> 's shell" where
  "sleep ms w = w\<lparr>clock := clock w + ms\<rparr>"

definition read_some :: "'s device \<Rightarrow> 's shell \<Rightarrow> pystr \<times> 's shell" where
  "read_some d w =
     (case ser w of
        None \<Rightarrow> ([], w)
      | Some s \<Rightarrow>
          (case dev_read d s of
             (data, ms, s') \<Rightarrow>
               (data, w\<lparr>ser := Some s', clock := clock w + int ms, io := io w @ [Read data]\<rparr>)))"

definition write_str :: "'s device \<Rightarrow> pystr \<Rightarrow> 's shell \<Rightarrow> error + 's shell" where
  "write_str d s w =
     (case ser w of
        None \<Rightarrow> Inl (RuntimeError (str ''Not connected''))
      | Some st \<Rightarrow> Inr (w\<lparr>ser := Some (dev_write d s st), io := io w @ [Wrote s]\<rparr>))"

text \<open>
  The loop of \<open>_drain\<close>; \<open>endt\<close> is its \<open>end\<close>.  A loop that never leaves has the value
  \<open>None\<close>.
\<close>

partial_function (option)
  drain_loop :: "'s device \<Rightarrow> int \<Rightarrow> pystr \<Rightarrow> 's shell \<Rightarrow> (pystr \<times> 's shell) option"
where
  "drain_loop d endt out w =
     (if clock w < endt then
        (case read_some d w of
           (chunk, w') \<Rightarrow>
             if chunk \<noteq> [] then drain_loop d endt (out @ chunk) w'
             else drain_loop d endt out (sleep 20 w'))
      else Some (out, w))"

declare drain_loop.simps [code]

definition drain :: "'s device \<Rightarrow> int \<Rightarrow> 's shell \<Rightarrow> (pystr \<times> 's shell) option" where
  "drain d duration w = drain_loop d (clock w + duration) [] w"

text \<open>
  One of the three answers of the poll loop:
  \<^verbatim>\<open>
  if pattern.search(buf):
      self._write(reply)
      buf += self._drain(duration)
  \<close>
\<close>

definition answer ::
  "'s device \<Rightarrow> atom list \<Rightarrow> pystr \<Rightarrow> int \<Rightarrow> pystr \<Rightarrow> 's shell
     \<Rightarrow> ((error + pystr) \<times> 's shell) option" where
  "answer d pattern reply duration buf w =
     (if re_search pattern buf then
        (case write_str d reply w of
           Inl e \<Rightarrow> Some (Inl e, w)
         | Inr w1 \<Rightarrow>
             (case drain d duration w1 of
                None \<Rightarrow> None
              | Some (out, w2) \<Rightarrow> Some (Inr (buf @ out), w2)))
      else Some (Inr buf, w))"

text \<open>The wake loop of \<open>ensure_shell\<close>, \<open>n\<close> rounds of it.\<close>

fun wake :: "'s device \<Rightarrow> nat \<Rightarrow> pystr \<Rightarrow> 's shell \<Rightarrow> ((error + pystr) \<times> 's shell) option" where
  "wake d 0 buf w = Some (Inr buf, w)"
| "wake d (Suc n) buf w =
     (case write_str d [10] w of
        Inl e \<Rightarrow> Some (Inl e, w)
      | Inr w1 \<Rightarrow>
          (case drain d 350 (sleep 80 w1) of
             None \<Rightarrow> None
           | Some (out, w2) \<Rightarrow> wake d n (buf @ out) w2))"

text \<open>The poll loop of \<open>ensure_shell\<close>.\<close>

partial_function (option)
  poll :: "'s device \<Rightarrow> int \<Rightarrow> int \<Rightarrow> pystr \<Rightarrow> 's shell
             \<Rightarrow> ((error + bool \<times> pystr) \<times> 's shell) option"
where
  "poll d start overall_timeout buf w =
     (if clock w - start < overall_timeout then
        (case write_str d [10] w of
           Inl e \<Rightarrow> Some (Inl e, w)
         | Inr w1 \<Rightarrow>
         (case drain d 350 (sleep 60 w1) of
            None \<Rightarrow> None
          | Some (out, w2) \<Rightarrow>
          if re_search PROMPT_REGEX (buf @ out) then
            Some (Inr (True, str ''Shell prompt detected.''), w2)
          else
          (case answer d LOGIN_REGEX (username w2 @ [10]) 800 (buf @ out) w2 of
             None \<Rightarrow> None
           | Some (Inl e, w3) \<Rightarrow> Some (Inl e, w3)
           | Some (Inr buf3, w3) \<Rightarrow>
           (case answer d PASSWORD_REGEX (password w3 @ [10]) 1000 buf3 w3 of
              None \<Rightarrow> None
            | Some (Inl e, w4) \<Rightarrow> Some (Inl e, w4)
            | Some (Inr buf4, w4) \<Rightarrow>
            (case answer d ACTIVATE_REGEX [10] 600 buf4 w4 of
               None \<Rightarrow> None
             | Some (Inl e, w5) \<Rightarrow> Some (Inl e, w5)
             | Some (Inr buf5, w5) \<Rightarrow> poll d start overall_timeout buf5 w5)))))
      else Some (Inr (False, str ''Prompt not detected (timeout).''), w))"

declare poll.simps [code]

definition ensure_shell ::
  "'s device \<Rightarrow> int \<Rightarrow> 's shell \<Rightarrow> ((error + bool \<times> pystr) \<times> 's shell) option" where
  "ensure_shell d overall_timeout w =
     (if ser w = None then Some (Inr (False, str ''Not connected''), w)
      else
        (case wake d 2 [] w of
           None \<Rightarrow> None
         | Some (Inl e, w1) \<Rightarrow> Some (Inl e, w1)
         | Some (Inr buf, w1) \<Rightarrow> poll d (clock w1) overall_timeout buf w1))"

text \<open>The read loop of \<open>run\<close>, left by \<open>break\<close> when the prompt pattern is found.\<close>

partial_function (option)
  collect :: "'s device \<Rightarrow> int \<Rightarrow> pystr \<Rightarrow> 's shell \<Rightarrow> (pystr \<times> 's shell) option"
where
  "collect d endt collected w =
     (if clock w < endt then
        (case read_some d w of
           (chunk, w') \<Rightarrow>
             if chunk \<noteq> [] then
               (if re_search PROMPT_REGEX (collected @ chunk) then Some (collected @ chunk, w')
                else collect d endt (collected @ chunk) w')
             else collect d endt collected (sleep 20 w'))
      else Some (collected, w))"

declare collect.simps [code]

text \<open>
  The end of \<open>run\<close>, from the collected text on; \<open>cmd\<close> is the trimmed command.
\<close>

definition denied :: "pystr \<Rightarrow> bool" where
  "denied out \<longleftrightarrow>
     contains (str ''Operation not permitted'') out \<or> contains (str ''Permission denied'') out"

definition verdict :: "pystr \<Rightarrow> int \<Rightarrow> pystr \<Rightarrow> 's shell \<Rightarrow> bool \<times> pystr" where
  "verdict cmd endt collected w =
     (let out = clean_output cmd collected in
      if denied out then (False, out)
      else if clock w \<ge> endt \<and> out = [] then (False, str ''[timeout]'')
      else (True, out))"

definition run ::
  "'s device \<Rightarrow> pystr \<Rightarrow> int \<Rightarrow> 's shell \<Rightarrow> ((error + bool \<times> pystr) \<times> 's shell) option" where
  "run d cmd timeout_s w =
     (case ser w of
        None \<Rightarrow> Some (Inr (False, str ''Not connected''), w)
      | Some st \<Rightarrow>
          if strip cmd = [] then Some (Inr (True, []), w)
          else
            (let w1 = w\<lparr>ser := Some (dev_reset d st), io := io w @ [ResetInput]\<rparr> in
             case write_str d (strip cmd @ [10]) w1 of
               Inl e \<Rightarrow> Some (Inl e, w1)
             | Inr w2 \<Rightarrow>
                 (case collect d (clock w2 + timeout_s) [] w2 of
                    None \<Rightarrow> None
                  | Some (collected, w3) \<Rightarrow>
                      Some (Inr (verdict (strip cmd) (clock w2 + timeout_s) collected w3), w3))))"

section \<open>What the prompt pattern says\<close>

text \<open>
  A prompt line in the words of the specification: text without line breaks (neither
  \<open>\n\<close> nor \<open>\r\<close>), then \<open>#\<close> or \<open>$\<close>, then whitespace only.
\<close>

definition prompt_line :: "pystr \<Rightarrow> bool" where
  "prompt_line l \<longleftrightarrow>
     (\<exists>pre c ws. l = pre @ c # ws \<and> 10 \<notin> set pre \<and> 13 \<notin> set pre \<and> (c = 35 \<or> c = 36) \<and>
        (\<forall>x\<in>set ws. is_space x))"

text \<open>The texts the pattern accepts at their first position, when a line starts there.\<close>

definition prompt_here :: "pystr \<Rightarrow> bool" where
  "prompt_here s \<longleftrightarrow>
     (\<exists>pre c ws rest. s = pre @ c # ws @ rest \<and> 10 \<notin> set pre \<and> 13 \<notin> set pre \<and>
        (c = 35 \<or> c = 36) \<and> (\<forall>x\<in>set ws. is_space x) \<and> (rest = [] \<or> hd rest = 10))"

text \<open>
  The executor at the moment the read loop of \<open>run\<close> starts: the input buffer has been
  reset and the trimmed command written.
\<close>

definition sent :: "'s device \<Rightarrow> pystr \<Rightarrow> 's \<Rightarrow> 's shell \<Rightarrow> 's shell" where
  "sent d cmd st w =
     w\<lparr>ser := Some (dev_write d (strip cmd @ [10]) (dev_reset d st)),
       io := io w @ [ResetInput, Wrote (strip cmd @ [10])]\<rparr>"

section \<open>Reads in a row\<close>

text \<open>\<open>reads d n s\<close>: the text that \<open>n\<close> reads in a row deliver from state \<open>s\<close>, and the state then.\<close>

fun reads :: "'s device \<Rightarrow> nat \<Rightarrow> 's \<Rightarrow> pystr \<times> 's" where
  "reads d 0 s = ([], s)"
| "reads d (Suc n) s =
     (case reads d n s of
        (b, s') \<Rightarrow> (case dev_read d s' of (chunk, ms, s'') \<Rightarrow> (b @ chunk, s'')))"

text \<open>
  The time the first \<open>n\<close> rounds of a read loop take: the time of each read, and the pause
  of 20 milliseconds after a read that delivers nothing.
\<close>

fun loop_time :: "'s device \<Rightarrow> nat \<Rightarrow> 's \<Rightarrow> int" where
  "loop_time d 0 s = 0"
| "loop_time d (Suc n) s =
     (case dev_read d (snd (reads d n s)) of
        (chunk, ms, s') \<Rightarrow> loop_time d n s + int ms + (if chunk = [] then 20 else 0))"

text \<open>The port after \<open>run\<close> has reset the input buffer and written the trimmed command.\<close>

definition asked :: "'s device \<Rightarrow> pystr \<Rightarrow> 's \<Rightarrow> 's" where
  "asked d cmd st = dev_write d (strip cmd @ [10]) (dev_reset d st)"

section \<open>Ports that never show a prompt\<close>

text \<open>
  \<open>reach d s0 s b\<close>: starting in state \<open>s0\<close>, some sequence of reads and writes brings
  the port \<open>d\<close> to state \<open>s\<close>, and \<open>b\<close> is all the text it has delivered on the way.
\<close>

inductive reach :: "'s device \<Rightarrow> 's \<Rightarrow> 's \<Rightarrow> pystr \<Rightarrow> bool" for d :: "'s device" and s0 :: 's where
  start: "reach d s0 s0 []"
| after_read: "reach d s0 s b \<Longrightarrow> dev_read d s = (chunk, ms, s') \<Longrightarrow> reach d s0 s' (b @ chunk)"
| after_write: "reach d s0 s b \<Longrightarrow> reach d s0 (dev_write d x s) b"

text \<open>
  The port never delivers text in which the prompt, login or password pattern or the
  activation banner is found.
\<close>

definition never_matches :: "'s device \<Rightarrow> 's \<Rightarrow> bool" where
  "never_matches d s0 \<longleftrightarrow>
     (\<forall>s b. reach d s0 s b \<longrightarrow>
        \<not> re_search PROMPT_REGEX b \<and> \<not> re_search LOGIN_REGEX b \<and>
        \<not> re_search PASSWORD_REGEX b \<and> \<not> re_search ACTIVATE_REGEX b)"

text \<open>
  Every read takes at most \<open>R\<close> milliseconds, and a read that delivers text takes time.
\<close>

definition read_times :: "'s device \<Rightarrow> 's \<Rightarrow> nat \<Rightarrow> bool" where
  "read_times d s0 R \<longleftrightarrow>
     (\<forall>s b chunk ms s'. reach d s0 s b \<longrightarrow> dev_read d s = (chunk, ms, s') \<longrightarrow>
        ms \<le> R \<and> (chunk \<noteq> [] \<longrightarrow> 0 < ms))"

section \<open>A port that answers\<close>

text \<open>
  The state of this port is the queue of chunks not yet read and a list of rules, each
  a text to wait for and the chunk to send back.  A write of the text the first rule
  waits for puts that rule's chunk into the queue and drops the rule; any other write is
  ignored.  Every read takes \<open>ms\<close> milliseconds and delivers the next chunk of the queue,
  or nothing.
\<close>

type_synonym rules = "(pystr \<times> pystr) list"

definition responder :: "nat \<Rightarrow> (pystr list \<times> rules) device" where
  "responder ms =
     \<lparr>dev_read = (\<lambda>(q, rules). case q of [] \<Rightarrow> ([], ms, ([], rules)) | c # q' \<Rightarrow> (c, ms, (q', rules))),
      dev_write = (\<lambda>x (q, rules).
         case rules of [] \<Rightarrow> (q, rules)
         | (trigger, resp) # rest \<Rightarrow> if x = trigger then (q @ [resp], rest) else (q, rules)),
      dev_reset = (\<lambda>(q, rules). ([], rules))\<rparr>"

text \<open>The texts written to the port, in order.\<close>

fun writes :: "event list \<Rightarrow> pystr list" where
  "writes [] = []"
| "writes (Wrote x # es) = x # writes es"
| "writes (Read x # es) = writes es"
| "writes (ResetInput # es) = writes es"

text \<open>
  From \<open>w\<close> to \<open>w'\<close> the port has gone to state \<open>s'\<close>, the texts \<open>ws\<close> have been written,
  between \<open>lo\<close> and \<open>hi\<close> milliseconds have passed and the credentials are the same.
\<close>

definition moved :: "'s shell \<Rightarrow> 's shell \<Rightarrow> 's \<Rightarrow> pystr list \<Rightarrow> int \<Rightarrow> int \<Rightarrow> bool" where
  "moved w w' s' ws lo hi \<longleftrightarrow>
     ser w' = Some s' \<and> username w' = username w \<and> password w' = password w \<and>
     writes (io w') = writes (io w) @ ws \<and> clock w + lo \<le> clock w' \<and> clock w' \<le> clock w + hi"

text \<open>What a write does to the rules: the chunk sent back and the rules left.\<close>

fun fire :: "pystr \<Rightarrow> rules \<Rightarrow> pystr \<times> rules" where
  "fire x [] = ([], [])"
| "fire x ((trigger, resp) # rest) =
     (if x = trigger then (resp, rest) else ([], (trigger, resp) # rest))"

text \<open>
  The dialogue without its timing: what the executor has heard, the rules the port has
  left, what the executor has said, the least time that has passed and the number of
  drains done.  \<open>hear\<close> is a write followed by a drain, \<open>talk\<close> one answer of the poll
  loop, \<open>round\<close> one round of the poll loop in which the prompt was not found.
\<close>

record sim =
  heard :: pystr
  rules_left :: rules
  said :: "pystr list"
  least :: int
  drains :: nat

definition hear :: "pystr \<Rightarrow> int \<Rightarrow> sim \<Rightarrow> sim" where
  "hear x t s =
     \<lparr>heard = heard s @ fst (fire x (rules_left s)), rules_left = snd (fire x (rules_left s)),
      said = said s @ [x], least = least s + t, drains = Suc (drains s)\<rparr>"

definition talk :: "atom list \<Rightarrow> pystr \<Rightarrow> int \<Rightarrow> sim \<Rightarrow> sim" where
  "talk pattern x t s = (if re_search pattern (heard s) then hear x t s else s)"

text \<open>The executor \<open>w\<close>, started as \<open>w0\<close>, is where the dialogue \<open>s\<close> says, its queue empty.\<close>

definition tracks :: "nat \<Rightarrow> (pystr list \<times> rules) shell \<Rightarrow> (pystr list \<times> rules) shell \<Rightarrow> sim \<Rightarrow> bool" where
  "tracks ms w0 w s \<longleftrightarrow>
     moved w0 w ([], rules_left s) (said s) (least s) (least s + int (drains s) * (int ms + 20))"

definition round :: "pystr \<Rightarrow> pystr \<Rightarrow> sim \<Rightarrow> sim" where
  "round user pass s =
     talk ACTIVATE_REGEX [10] 600
       (talk PASSWORD_REGEX (pass @ [10]) 1000
          (talk LOGIN_REGEX (user @ [10]) 800 (hear [10] 410 s)))"

text \<open>
  The login dialogue: the login line on the first newline, the password line on the
  user name, the prompt on the password.
\<close>

definition login_rules :: "pystr \<Rightarrow> pystr \<Rightarrow> pystr \<Rightarrow> pystr \<Rightarrow> pystr \<Rightarrow> rules" where
  "login_rules user pass l p q = [([10], l), (user @ [10], p), (pass @ [10], q)]"

section \<open>Example ports\<close>

text \<open>
  A port that plays a script: every read takes \<open>ms\<close> milliseconds and returns the next
  chunk of the script, or nothing once the script is over.  Writes are ignored.
\<close>

definition scripted :: "nat \<Rightarrow> pystr list device" where
  "scripted ms =
     \<lparr>dev_read = (\<lambda>s. case s of [] \<Rightarrow> ([], ms, []) | c # cs \<Rightarrow> (c, ms, cs)),
      dev_write = (\<lambda>x s. s),
      dev_reset = (\<lambda>s. s)\<rparr>"

text \<open>An executor as \<open>connect\<close> leaves it (\<open>Some\<close> port) or as \<open>__init__\<close> does (\<open>None\<close>).\<close>

definition session :: "'s option \<Rightarrow> 's shell" where
  "session p = \<lparr>ser = p, username = str ''root'', password = [], clock = 0, io = []\<rparr>"

section \<open>Properties\<close>

subsection \<open>The matcher\<close>

lemma rx_many:
  "rx_match (Many p # r) prev s \<noteq> None \<longleftrightarrow>
     (\<exists>pre rest. s = pre @ rest \<and> (\<forall>x\<in>set pre. p x) \<and>
        rx_match r (if pre = [] then prev else Some (last pre)) rest \<noteq> None)"
proof (induction s arbitrary: prev)
  case Nil
  then show ?case by simp
next
  case (Cons c s)
  show ?case
  proof (cases "p c")
    case False
    have "rx_match (Many p # r) prev (c # s) = rx_match r prev (c # s)"
      using False by simp
    moreover have "(\<exists>pre rest. c # s = pre @ rest \<and> (\<forall>x\<in>set pre. p x) \<and>
        rx_match r (if pre = [] then prev else Some (last pre)) rest \<noteq> None)
        \<longleftrightarrow> rx_match r prev (c # s) \<noteq> None"
      using False by (auto simp: Cons_eq_append_conv)
    ultimately show ?thesis by simp
  next
    case True
    have step: "rx_match (Many p # r) prev (c # s) \<noteq> None \<longleftrightarrow>
        rx_match (Many p # r) (Some c) s \<noteq> None \<or> rx_match r prev (c # s) \<noteq> None"
      using True by (auto split: option.splits)
    have "(\<exists>pre rest. c # s = pre @ rest \<and> (\<forall>x\<in>set pre. p x) \<and>
        rx_match r (if pre = [] then prev else Some (last pre)) rest \<noteq> None)
        \<longleftrightarrow> rx_match r prev (c # s) \<noteq> None \<or>
          (\<exists>pre rest. s = pre @ rest \<and> (\<forall>x\<in>set pre. p x) \<and>
            rx_match r (if pre = [] then Some c else Some (last pre)) rest \<noteq> None)"
      (is "?L \<longleftrightarrow> ?A \<or> ?B")
    proof
      assume ?L
      then obtain pre rest where h: "c # s = pre @ rest" "\<forall>x\<in>set pre. p x"
        "rx_match r (if pre = [] then prev else Some (last pre)) rest \<noteq> None" by blast
      show "?A \<or> ?B"
      proof (cases pre)
        case Nil
        with h show ?thesis by simp
      next
        case (Cons a pre')
        with h have "s = pre' @ rest" "\<forall>x\<in>set pre'. p x" "a = c" by auto
        moreover have "rx_match r (if pre' = [] then Some c else Some (last pre')) rest \<noteq> None"
          using h(3) Cons \<open>a = c\<close> by (auto split: if_splits)
        ultimately show ?thesis by blast
      qed
    next
      assume "?A \<or> ?B"
      then show ?L
      proof
        assume ?A
        then have "c # s = [] @ (c # s) \<and> (\<forall>x\<in>set []. p x) \<and>
          rx_match r (if [] = ([]::nat list) then prev else Some (last [])) (c # s) \<noteq> None" by simp
        then show ?L by blast
      next
        assume ?B
        then obtain pre rest where h: "s = pre @ rest" "\<forall>x\<in>set pre. p x"
          "rx_match r (if pre = [] then Some c else Some (last pre)) rest \<noteq> None" by blast
        have "c # s = (c # pre) @ rest \<and> (\<forall>x\<in>set (c # pre). p x) \<and>
          rx_match r (if c # pre = [] then prev else Some (last (c # pre))) rest \<noteq> None"
          using h True by auto
        then show ?L by blast
      qed
    qed
    then show ?thesis
      unfolding step Cons.IH [of "Some c"] by blast
  qed
qed

lemma rx_one:
  "rx_match (One p # r) prev s \<noteq> None \<longleftrightarrow> (\<exists>c s'. s = c # s' \<and> p c \<and> rx_match r (Some c) s' \<noteq> None)"
  by (cases s) auto

lemma rx_eol: "rx_match [Eol] prev s \<noteq> None \<longleftrightarrow> s = [] \<or> hd s = 10"
  by (cases s) auto

lemma prompt_tail_iff:
  "rx_match [Many (\<lambda>c. c \<noteq> 10 \<and> c \<noteq> 13), One (\<lambda>c. c = 35 \<or> c = 36), Many is_space, Eol] prev s \<noteq> None
      \<longleftrightarrow> prompt_here s"
  (is "?L \<longleftrightarrow> ?R")
proof
  assume ?L
  then obtain pre c ws rest where "s = pre @ c # ws @ rest" "\<forall>x\<in>set pre. x \<noteq> 10 \<and> x \<noteq> 13"
    "c = 35 \<or> c = 36" "\<forall>x\<in>set ws. is_space x" "rest = [] \<or> hd rest = 10"
    unfolding rx_many rx_one rx_eol by auto
  then have "s = pre @ c # ws @ rest \<and> 10 \<notin> set pre \<and> 13 \<notin> set pre \<and>
        (c = 35 \<or> c = 36) \<and> (\<forall>x\<in>set ws. is_space x) \<and> (rest = [] \<or> hd rest = 10)"
    by auto
  then show ?R
    unfolding prompt_here_def by blast
next
  assume ?R
  then obtain pre c ws rest where h: "s = pre @ c # ws @ rest" "10 \<notin> set pre" "13 \<notin> set pre"
        "c = 35 \<or> c = 36" "\<forall>x\<in>set ws. is_space x" "rest = [] \<or> hd rest = 10"
    unfolding prompt_here_def by blast
  have "\<forall>x\<in>set pre. x \<noteq> 10 \<and> x \<noteq> 13"
    using h(2,3) by auto
  with h show ?L
    unfolding rx_many rx_one rx_eol by blast
qed

lemma prompt_match_iff:
  "rx_match PROMPT_REGEX prev s \<noteq> None \<longleftrightarrow> (prev = None \<or> prev = Some 10) \<and> prompt_here s"
  using prompt_tail_iff [of prev s] by (simp add: PROMPT_REGEX_def)

lemma search_from_iff:
  "search_from r prev s \<longleftrightarrow>
     (\<exists>a b. s = a @ b \<and> rx_match r (if a = [] then prev else Some (last a)) b \<noteq> None)"
proof (induction s arbitrary: prev)
  case Nil
  then show ?case by simp
next
  case (Cons c s)
  have "(\<exists>a b. c # s = a @ b \<and> rx_match r (if a = [] then prev else Some (last a)) b \<noteq> None)
     \<longleftrightarrow> rx_match r prev (c # s) \<noteq> None \<or>
        (\<exists>a b. s = a @ b \<and> rx_match r (if a = [] then Some c else Some (last a)) b \<noteq> None)"
    (is "?L \<longleftrightarrow> ?A \<or> ?B")
  proof
    assume ?L
    then obtain a b where h: "c # s = a @ b"
      "rx_match r (if a = [] then prev else Some (last a)) b \<noteq> None" by blast
    show "?A \<or> ?B"
    proof (cases a)
      case Nil
      with h show ?thesis by simp
    next
      case (Cons x a')
      with h have "s = a' @ b" "x = c" by auto
      moreover have "rx_match r (if a' = [] then Some c else Some (last a')) b \<noteq> None"
        using h(2) Cons \<open>x = c\<close> by (auto split: if_splits)
      ultimately show ?thesis by blast
    qed
  next
    assume "?A \<or> ?B"
    then show ?L
    proof
      assume ?A
      then have "c # s = [] @ (c # s) \<and>
        rx_match r (if [] = ([]::nat list) then prev else Some (last [])) (c # s) \<noteq> None" by simp
      then show ?L by blast
    next
      assume ?B
      then obtain a b where h: "s = a @ b"
        "rx_match r (if a = [] then Some c else Some (last a)) b \<noteq> None" by blast
      have "c # s = (c # a) @ b \<and>
        rx_match r (if c # a = [] then prev else Some (last (c # a))) b \<noteq> None"
        using h by auto
      then show ?L by blast
    qed
  qed
  with Cons.IH [of "Some c"] show ?case by simp
qed


lemma split_nl_nonempty: "split_nl s \<noteq> []"
  by (induction s) (auto split: list.splits)

lemma split_nl_no_nl: "10 \<notin> set a \<Longrightarrow> split_nl a = [a]"
  by (induction a) auto

lemma split_nl_append: "split_nl (a @ 10 # b) = split_nl a @ split_nl b"
proof (induction a)
  case Nil
  then show ?case by simp
next
  case (Cons c a)
  then show ?case
    using split_nl_nonempty [of a] by (cases "split_nl a") auto
qed

lemma split_nl_first: "10 \<notin> set a \<Longrightarrow> split_nl (a @ 10 # b) = a # split_nl b"
  by (simp add: split_nl_append split_nl_no_nl)

lemma split_nl_last: "10 \<notin> set b \<Longrightarrow> split_nl (a @ 10 # b) = split_nl a @ [b]"
  by (simp add: split_nl_append split_nl_no_nl)

lemma join_nl_Cons: "join_nl ((c # l) # ls) = c # join_nl (l # ls)"
  by (cases ls) auto

lemma join_nl_split_nl: "join_nl (split_nl s) = s"
proof (induction s)
  case Nil
  then show ?case by simp
next
  case (Cons c s)
  obtain l ls where ls: "split_nl s = l # ls"
    using split_nl_nonempty [of s] by (cases "split_nl s") auto
  show ?case
    using Cons ls by (auto simp: join_nl_Cons)
qed

lemma in_split_nl_D:
  "l \<in> set (split_nl s) \<Longrightarrow>
     10 \<notin> set l \<and> (\<exists>a b. s = a @ l @ b \<and> (a = [] \<or> last a = 10) \<and> (b = [] \<or> hd b = 10))"
proof (induction "length s" arbitrary: s rule: less_induct)
  case less
  show ?case
  proof (cases "10 \<in> set s")
    case False
    with less.prems have "l = s"
      by (simp add: split_nl_no_nl)
    moreover have "s = [] @ s @ []" by simp
    ultimately show ?thesis using False by blast
  next
    case True
    then obtain x y where s: "s = x @ 10 # y" "10 \<notin> set x"
      by (meson split_list_first)
    with less.prems have "l = x \<or> l \<in> set (split_nl y)"
      by (simp add: split_nl_first)
    then show ?thesis
    proof
      assume "l = x"
      with s have "s = [] @ l @ (10 # y)" by simp
      with s \<open>l = x\<close> show ?thesis by fastforce
    next
      assume "l \<in> set (split_nl y)"
      moreover have "length y < length s" using s by simp
      ultimately obtain a b where h: "10 \<notin> set l" "y = a @ l @ b" "a = [] \<or> last a = 10"
        "b = [] \<or> hd b = 10"
        using less.hyps [of y] by blast
      have "s = (x @ 10 # a) @ l @ b \<and> last (x @ 10 # a) = 10"
        using s h by auto
      with h show ?thesis by blast
    qed
  qed
qed

lemma in_split_nl_I:
  assumes "10 \<notin> set l" "a = [] \<or> last a = 10" "b = [] \<or> hd b = 10"
  shows "l \<in> set (split_nl (a @ l @ b))"
proof -
  have tail: "l \<in> set (split_nl (l @ b))"
  proof (cases b)
    case Nil
    with assms show ?thesis by (simp add: split_nl_no_nl)
  next
    case (Cons c b')
    with assms have "b = 10 # b'" by simp
    with assms show ?thesis by (simp add: split_nl_first)
  qed
  show ?thesis
  proof (cases a rule: rev_cases)
    case Nil
    with tail show ?thesis by simp
  next
    case (snoc a' c)
    with assms have "a = a' @ [10]" by simp
    then have "split_nl (a @ l @ b) = split_nl a' @ split_nl (l @ b)"
      using split_nl_append [of a' "l @ b"] by simp
    with tail show ?thesis by simp
  qed
qed

lemma prompt_search_lines:
  "re_search PROMPT_REGEX s \<longleftrightarrow> (\<exists>l\<in>set (split_nl s). prompt_line l)"
proof
  assume "re_search PROMPT_REGEX s"
  then obtain a b where ab: "s = a @ b" "a = [] \<or> last a = 10" "prompt_here b"
    unfolding re_search_def search_from_iff prompt_match_iff by (auto split: if_splits)
  then obtain pre c ws rest where h: "b = pre @ c # ws @ rest" "10 \<notin> set pre" "13 \<notin> set pre"
        "c = 35 \<or> c = 36" "\<forall>x\<in>set ws. is_space x" "rest = [] \<or> hd rest = 10"
    unfolding prompt_here_def by blast
  define ws1 where "ws1 = takeWhile (\<lambda>x. x \<noteq> 10) ws"
  define ws2 where "ws2 = dropWhile (\<lambda>x. x \<noteq> 10) ws"
  have ws: "ws = ws1 @ ws2"
    by (simp add: ws1_def ws2_def)
  have ws1: "10 \<notin> set ws1" "\<forall>x\<in>set ws1. is_space x"
    using h(5) by (auto simp: ws1_def dest: set_takeWhileD)
  have ws2: "ws2 = [] \<or> hd ws2 = 10"
    using hd_dropWhile [of "\<lambda>x. x \<noteq> 10" ws] by (auto simp: ws2_def)
  define l where "l = pre @ c # ws1"
  have "10 \<notin> set l"
    using h ws1 by (auto simp: l_def)
  moreover have "ws2 @ rest = [] \<or> hd (ws2 @ rest) = 10"
    using ws2 h(6) by (cases ws2) auto
  ultimately have "l \<in> set (split_nl (a @ l @ (ws2 @ rest)))"
    using ab(2) by (intro in_split_nl_I)
  moreover have "s = a @ l @ (ws2 @ rest)"
    using ab h ws by (simp add: l_def)
  moreover have "prompt_line l"
    unfolding prompt_line_def l_def using h ws1 by blast
  ultimately show "\<exists>l\<in>set (split_nl s). prompt_line l"
    by auto
next
  assume "\<exists>l\<in>set (split_nl s). prompt_line l"
  then obtain l where l: "l \<in> set (split_nl s)" "prompt_line l" by blast
  then obtain a b where ab: "s = a @ l @ b" "a = [] \<or> last a = 10" "b = [] \<or> hd b = 10"
    using in_split_nl_D by blast
  obtain pre c ws where h: "l = pre @ c # ws" "10 \<notin> set pre" "13 \<notin> set pre"
        "c = 35 \<or> c = 36" "\<forall>x\<in>set ws. is_space x"
    using l(2) unfolding prompt_line_def by blast
  have "prompt_here (l @ b)"
    unfolding prompt_here_def using h ab(3) by auto
  then have "rx_match PROMPT_REGEX (if a = [] then None else Some (last a)) (l @ b) \<noteq> None"
    unfolding prompt_match_iff using ab(2) by auto
  then show "re_search PROMPT_REGEX s"
    unfolding re_search_def search_from_iff using ab(1) by blast
qed

lemma prompt_line_match:
  assumes "10 \<notin> set l"
  shows "re_match PROMPT_REGEX (l @ [10]) \<longleftrightarrow> prompt_line l"
proof
  assume "re_match PROMPT_REGEX (l @ [10])"
  then obtain pre c ws rest where h: "l @ [10] = pre @ c # ws @ rest" "10 \<notin> set pre" "13 \<notin> set pre"
        "c = 35 \<or> c = 36" "\<forall>x\<in>set ws. is_space x" "rest = [] \<or> hd rest = 10"
    unfolding re_match_def prompt_match_iff prompt_here_def by blast
  show "prompt_line l"
  proof (cases rest rule: rev_cases)
    case Nil
    with h have e: "l @ [10] = pre @ c # ws" by simp
    with h(4) have "ws \<noteq> []" by (cases ws) auto
    then obtain ws' x where ws': "ws = ws' @ [x]" by (cases ws rule: rev_cases) auto
    with e have "l = pre @ c # ws'" by simp
    with h ws' show ?thesis unfolding prompt_line_def by auto
  next
    case (snoc r x)
    with h(1) have e: "l = pre @ c # ws @ r" by simp
    have "r = []"
    proof (rule ccontr)
      assume "r \<noteq> []"
      then have "hd rest = hd r" using snoc by (cases r) auto
      moreover have "hd r \<in> set l" using e \<open>r \<noteq> []\<close> by simp
      ultimately show False using h(6) snoc assms by auto
    qed
    with e h show ?thesis unfolding prompt_line_def by auto
  qed
next
  assume "prompt_line l"
  then obtain pre c ws where h: "l = pre @ c # ws" "10 \<notin> set pre" "13 \<notin> set pre"
        "c = 35 \<or> c = 36" "\<forall>x\<in>set ws. is_space x"
    unfolding prompt_line_def by blast
  have "l @ [10] = pre @ c # ws @ [10] \<and> ([10::nat] = [] \<or> hd [10::nat] = 10)"
    using h by simp
  with h have "prompt_here (l @ [10])"
    unfolding prompt_here_def by blast
  then show "re_match PROMPT_REGEX (l @ [10])"
    unfolding re_match_def prompt_match_iff by simp
qed

subsection \<open>The prompt pattern\<close>

lemma split_nl_snoc_text:
  "10 \<notin> set q \<Longrightarrow> split_nl (p @ q) = butlast (split_nl p) @ [last (split_nl p) @ q]"
proof (induction p)
  case Nil
  then show ?case by (simp add: split_nl_no_nl)
next
  case (Cons c p)
  obtain l ls where ls: "split_nl p = l # ls"
    using split_nl_nonempty [of p] by (cases "split_nl p") auto
  show ?case
    using Cons ls by (cases ls) auto
qed

lemma prompt_line_append:
  assumes "10 \<notin> set x" "13 \<notin> set x" "prompt_line q"
  shows "prompt_line (x @ q)"
proof -
  obtain pre c ws where h: "q = pre @ c # ws" "10 \<notin> set pre" "13 \<notin> set pre"
        "c = 35 \<or> c = 36" "\<forall>x\<in>set ws. is_space x"
    using assms(3) unfolding prompt_line_def by blast
  have "x @ q = (x @ pre) @ c # ws \<and> 10 \<notin> set (x @ pre) \<and> 13 \<notin> set (x @ pre)"
    using h assms by simp
  with h show ?thesis
    unfolding prompt_line_def by blast
qed

lemma prompt_line_last:
  assumes "prompt_line l"
  shows "l \<noteq> [] \<and> (last l = 35 \<or> last l = 36 \<or> is_space (last l))"
proof -
  obtain pre c ws where h: "l = pre @ c # ws" "c = 35 \<or> c = 36" "\<forall>x\<in>set ws. is_space x"
    using assms unfolding prompt_line_def by blast
  show ?thesis
  proof (cases ws rule: rev_cases)
    case Nil
    with h show ?thesis by auto
  next
    case (snoc ws' x)
    with h show ?thesis by auto
  qed
qed

lemma prompt_line_eval: "10 \<notin> set l \<Longrightarrow> prompt_line l = re_match PROMPT_REGEX (l @ [10])"
  by (simp add: prompt_line_match)

lemmas rx_eval = str_def re_match_def re_search_def PROMPT_REGEX_def is_space_def

lemma define_not_prompt: "\<not> prompt_line (x @ str ''#define FOO'')"
proof
  assume "prompt_line (x @ str ''#define FOO'')"
  from prompt_line_last [OF this] show False
    by (simp add: str_def is_space_def)
qed

text \<open>
  Claim C6, amended.  The prompt pattern is found in a text exactly when one of its
  lines (the pieces between \<open>\n\<close>) is a prompt line: text without \<open>\r\<close>, then \<open>#\<close> or
  \<open>$\<close>, then whitespace only.  So a text ending in \<open>root@board:~# \<close> or \<open>user$ \<close> is
  accepted whenever no \<open>\r\<close> stands before the prompt on its last line, and the last
  line of a text ending in \<open>#define FOO\<close> is never a prompt line: such a text is
  accepted only for one of its earlier lines.
\<close>

theorem prompt_pattern_lines:
  "(re_search PROMPT_REGEX s \<longleftrightarrow> (\<exists>l\<in>set (split_nl s). prompt_line l)) \<and>
   (13 \<notin> set (last (split_nl p)) \<longrightarrow>
      re_search PROMPT_REGEX (p @ str ''root@board:~# '') \<and>
      re_search PROMPT_REGEX (p @ str ''user$ '')) \<and>
   (re_search PROMPT_REGEX (p @ str ''#define FOO'') \<longleftrightarrow>
      (\<exists>l\<in>set (butlast (split_nl p)). prompt_line l))"
proof (intro conjI impI)
  show "re_search PROMPT_REGEX s \<longleftrightarrow> (\<exists>l\<in>set (split_nl s). prompt_line l)"
    by (rule prompt_search_lines)
next
  assume cr: "13 \<notin> set (last (split_nl p))"
  have nl: "10 \<notin> set (last (split_nl p))"
    using in_split_nl_D [of "last (split_nl p)" p] split_nl_nonempty [of p] by simp
  have a: "prompt_line (str ''root@board:~# '')" "prompt_line (str ''user$ '')"
    by (simp_all add: prompt_line_eval rx_eval)
  have b: "10 \<notin> set (str ''root@board:~# '')" "10 \<notin> set (str ''user$ '')"
    by (simp_all add: str_def)
  show "re_search PROMPT_REGEX (p @ str ''root@board:~# '')"
    unfolding prompt_search_lines split_nl_snoc_text [OF b(1)]
    using prompt_line_append [OF nl cr a(1)] by simp
  show "re_search PROMPT_REGEX (p @ str ''user$ '')"
    unfolding prompt_search_lines split_nl_snoc_text [OF b(2)]
    using prompt_line_append [OF nl cr a(2)] by simp
next
  have b: "10 \<notin> set (str ''#define FOO'')"
    by (simp add: str_def)
  show "re_search PROMPT_REGEX (p @ str ''#define FOO'') \<longleftrightarrow>
      (\<exists>l\<in>set (butlast (split_nl p)). prompt_line l)"
    unfolding prompt_search_lines split_nl_snoc_text [OF b]
    using define_not_prompt by simp
qed

theorem prompt_pattern_lines_witness:
  "re_search PROMPT_REGEX (str ''ls'' @ 10 # str ''# '') \<and>
   re_search PROMPT_REGEX (str ''ls'' @ 10 # str ''root@board:~# '') \<and>
   re_search PROMPT_REGEX (str ''ls'' @ 10 # str ''user$ '') \<and>
   \<not> re_search PROMPT_REGEX (str ''ls'' @ 10 # str ''#define FOO'')"
proof -
  have l: "split_nl (str ''ls'' @ [10]) = [str ''ls'', []]" "split_nl (str ''ls'' @ 10 # str ''# '') = [str ''ls'', str ''# '']"
    by (simp_all add: str_def)
  have e: "\<not> prompt_line (str ''ls'')" "prompt_line (str ''# '')"
    by (simp_all add: prompt_line_eval rx_eval)
  show ?thesis
    using prompt_pattern_lines [of "str ''ls'' @ 10 # str ''# ''" "str ''ls'' @ [10]"] l e
    by simp
qed

text \<open>
  Claim C6 as stated fails: a \<open>\r\<close> before the prompt on the same line keeps a text
  ending in \<open>root@board:~# \<close> from being accepted, and a text ending in
  \<open>#define FOO\<close> is accepted when an earlier line is a prompt line.
\<close>

theorem prompt_pattern_counterexample:
  "\<not> re_search PROMPT_REGEX (13 # str ''root@board:~# '') \<and>
   re_search PROMPT_REGEX (str ''$ '' @ 10 # str ''#define FOO'')"
  by (simp add: rx_eval)

subsection \<open>Running a command\<close>

lemma writes_append [simp]: "writes (a @ b) = writes a @ writes b"
  by (induction a rule: writes.induct) auto

lemma run_open:
  assumes "ser w = Some st" "strip cmd \<noteq> []"
  shows "run d cmd t w =
           (case collect d (clock w + t) [] (sent d cmd st w) of
              None \<Rightarrow> None
            | Some (collected, w3) \<Rightarrow>
                Some (Inr (verdict (strip cmd) (clock w + t) collected w3), w3))"
  using assms by (auto simp: run_def sent_def write_str_def Let_def split: option.splits)

lemma collect_prompt_chunk:
  assumes "ser w = Some s" "clock w < endt" "dev_read d s = (chunk, ms, s')" "chunk \<noteq> []"
    and "re_search PROMPT_REGEX (collected @ chunk)"
  shows "collect d endt collected w =
           Some (collected @ chunk,
                 w\<lparr>ser := Some s', clock := clock w + int ms, io := io w @ [Read chunk]\<rparr>)"
  using assms by (subst collect.simps) (simp add: read_some_def)

lemma drop_prompts_snoc:
  "re_match PROMPT_REGEX (p @ [10]) \<Longrightarrow> drop_prompts (ls @ [p]) = drop_prompts ls"
  by (subst drop_prompts.simps) simp

lemma drop_prompts_stop:
  "ls = [] \<or> \<not> re_match PROMPT_REGEX (last ls @ [10]) \<Longrightarrow> drop_prompts ls = ls"
  by (subst drop_prompts.simps) auto

lemma last_line_no_nl: "10 \<notin> set (last (split_nl s))"
  using in_split_nl_D [of "last (split_nl s)" s] split_nl_nonempty [of s] by simp

lemma ansi_needs_esc: "s = [] \<or> hd s \<noteq> 27 \<Longrightarrow> rx_match ANSI_REGEX prev s = None"
  by (cases s) (auto simp: ANSI_REGEX_def)

lemma sub_from_plain: "27 \<notin> set s \<Longrightarrow> sub_from ANSI_REGEX prev s = s"
  by (induction s arbitrary: prev) (auto simp: ansi_needs_esc)

text \<open>A text without ESC and without carriage return is left as it is.\<close>

lemma sanitize_plain: "27 \<notin> set s \<Longrightarrow> 13 \<notin> set s \<Longrightarrow> sanitize s = s"
  by (auto simp: sanitize_def re_sub_empty_def sub_from_plain filter_id_conv)

lemma split_nl_join_nl:
  "ps \<noteq> [] \<Longrightarrow> \<forall>p\<in>set ps. 10 \<notin> set p \<Longrightarrow> split_nl (join_nl ps) = ps"
proof (induction ps rule: join_nl.induct)
  case 1
  then show ?case by simp
next
  case (2 l)
  then show ?case by (simp add: split_nl_no_nl)
next
  case (3 l v va)
  then show ?case by (simp add: split_nl_first)
qed

lemma drop_prompts_all:
  "\<forall>p\<in>set ps. 10 \<notin> set p \<and> prompt_line p \<Longrightarrow> drop_prompts (xs @ ps) = drop_prompts xs"
proof (induction ps rule: rev_induct)
  case Nil
  then show ?case by simp
next
  case (snoc p ps)
  have "drop_prompts ((xs @ ps) @ [p]) = drop_prompts (xs @ ps)"
    using snoc.prems by (intro drop_prompts_snoc) (simp add: prompt_line_match)
  with snoc show ?case by simp
qed

lemma clean_output_raw:
  assumes clean: "sanitize raw = e @ 10 # out @ 10 # join_nl ps"
    and echo: "10 \<notin> set e" "strip e = cmd"
    and prompts: "ps \<noteq> []" "\<forall>p\<in>set ps. 10 \<notin> set p \<and> prompt_line p"
    and out: "strip out = out" "\<not> prompt_line (last (split_nl out))"
  shows "clean_output cmd raw = out"
proof -
  have "split_nl (join_nl ps) = ps"
    using prompts by (intro split_nl_join_nl) auto
  then have "split_nl (e @ 10 # out @ 10 # join_nl ps) = e # split_nl out @ ps"
    using echo(1) by (simp add: split_nl_append split_nl_no_nl)
  then have "drop_echo cmd (split_nl (sanitize raw)) = split_nl out @ ps"
    using echo(2) clean by (simp add: drop_echo_def)
  moreover have "drop_prompts (split_nl out @ ps) = drop_prompts (split_nl out)"
    using prompts(2) by (rule drop_prompts_all)
  moreover have "drop_prompts (split_nl out) = split_nl out"
    using out(2) last_line_no_nl [of out] by (intro drop_prompts_stop) (simp add: prompt_line_match)
  ultimately show ?thesis
    using out(1) by (simp add: clean_output_def join_nl_split_nl)
qed

lemmas text_eval = str_def strip_def is_space_def re_match_def re_search_def PROMPT_REGEX_def
  clean_output_def sanitize_def re_sub_empty_def ANSI_REGEX_def drop_echo_def denied_def

lemma scripted_simps [simp]:
  "dev_read (scripted ms) (c # cs) = (c, ms, cs)"
  "dev_read (scripted ms) [] = ([], ms, [])"
  "dev_write (scripted ms) x s = s"
  "dev_reset (scripted ms) s = s"
  by (simp_all add: scripted_def)

lemma sent_asked:
  "ser (sent d cmd st w) = Some (asked d cmd st)" "clock (sent d cmd st w) = clock w"
  "writes (io (sent d cmd st w)) = writes (io w) @ [strip cmd @ [10]]"
  by (simp_all add: sent_def asked_def)

lemma collect_steps:
  assumes early: "\<And>j. j < k \<Longrightarrow> loop_time d j s1 < t"
    and quiet: "\<And>j. j \<le> k \<Longrightarrow> \<not> re_search PROMPT_REGEX (fst (reads d j s1))"
  shows "m \<le> k \<Longrightarrow> ser w = Some (snd (reads d m s1)) \<Longrightarrow> clock w = c0 + loop_time d m s1 \<Longrightarrow>
     \<exists>w'. collect d (c0 + t) (fst (reads d m s1)) w = collect d (c0 + t) (fst (reads d k s1)) w' \<and>
          ser w' = Some (snd (reads d k s1)) \<and> clock w' = c0 + loop_time d k s1 \<and>
          writes (io w') = writes (io w)"
proof (induction "k - m" arbitrary: m w)
  case 0
  then have "m = k" by simp
  with 0 show ?case by auto
next
  case (Suc x)
  then have mk: "m < k" by simp
  obtain b s where bs: "reads d m s1 = (b, s)"
    by (cases "reads d m s1") auto
  obtain chunk ms s' where r: "dev_read d s = (chunk, ms, s')"
    by (cases "dev_read d s") auto
  have next_reads: "reads d (Suc m) s1 = (b @ chunk, s')"
    using bs r by simp
  have next_time: "loop_time d (Suc m) s1 = loop_time d m s1 + int ms + (if chunk = [] then 20 else 0)"
    using bs r by simp
  have before: "clock w < c0 + t"
    using early [OF mk] Suc.prems(3) by simp
  have np: "\<not> re_search PROMPT_REGEX (b @ chunk)"
    using quiet [of "Suc m"] mk next_reads by simp
  let ?w1 = "w\<lparr>ser := Some s', clock := clock w + int ms, io := io w @ [Read chunk]\<rparr>"
  let ?w2 = "if chunk = [] then sleep 20 ?w1 else ?w1"
  have u: "collect d (c0 + t) (fst (reads d m s1)) w = collect d (c0 + t) (fst (reads d (Suc m) s1)) ?w2"
    using before Suc.prems(2) bs r np next_reads
    by (subst collect.simps) (simp add: read_some_def)
  have p: "ser ?w2 = Some (snd (reads d (Suc m) s1))" "clock ?w2 = c0 + loop_time d (Suc m) s1"
    "writes (io ?w2) = writes (io w)"
    using next_reads next_time Suc.prems(3) by (simp_all add: sleep_def)
  have "x = k - Suc m" "Suc m \<le> k"
    using Suc.hyps(2) mk by simp_all
  from Suc.hyps(1) [OF this p(1,2)]
  obtain w' where h: "collect d (c0 + t) (fst (reads d (Suc m) s1)) ?w2 =
        collect d (c0 + t) (fst (reads d k s1)) w'"
    "ser w' = Some (snd (reads d k s1))" "clock w' = c0 + loop_time d k s1"
    "writes (io w') = writes (io ?w2)"
    by auto
  show ?case
    using u h p(3) by (intro exI [of _ w']) simp
qed


lemma asked_scripted [simp]: "asked (scripted ms) cmd st = st"
  by (simp add: asked_def)

text \<open>
  Claim C1, amended.  Let the port deliver the transcript in any number of reads that all
  start before the deadline, the prompt pattern being found in the collected text once
  the last chunk has come and not before.  Let the collected text, with its ANSI
  sequences and carriage returns taken out, be the echoed line, a newline, the output,
  a newline and one or more prompt lines with newlines between them and none behind the
  last.  If the echoed line trimmed is the trimmed command, the output has no whitespace
  around it and its last line is no prompt line, and the output is not empty or the last
  read ends before the deadline, then \<open>run\<close> returns exactly the output when that read
  ends, having written the trimmed command and nothing else, with \<open>ok\<close> false only for a
  permission denial in the output.
\<close>

theorem run_echo_prompt:
  assumes "ser w = Some st" "strip cmd \<noteq> []"
    and "\<forall>j\<le>k. loop_time d j (asked d cmd st) < t"
    and "\<forall>j\<le>k. \<not> re_search PROMPT_REGEX (fst (reads d j (asked d cmd st)))"
    and "re_search PROMPT_REGEX (fst (reads d (Suc k) (asked d cmd st)))"
    and "sanitize (fst (reads d (Suc k) (asked d cmd st))) = e @ 10 # out @ 10 # join_nl ps"
    and "10 \<notin> set e" "strip e = strip cmd"
    and "ps \<noteq> []" "\<forall>p\<in>set ps. 10 \<notin> set p \<and> prompt_line p"
    and "strip out = out" "\<not> prompt_line (last (split_nl out))"
    and "out \<noteq> [] \<or> loop_time d (Suc k) (asked d cmd st) < t"
  shows "\<exists>w'. run d cmd t w = Some (Inr (\<not> denied out, out), w') \<and>
           ser w' = Some (snd (reads d (Suc k) (asked d cmd st))) \<and>
           clock w' = clock w + loop_time d (Suc k) (asked d cmd st) \<and>
           writes (io w') = writes (io w) @ [strip cmd @ [10]]"
proof -
  let ?s1 = "asked d cmd st"
  let ?raw = "fst (reads d (Suc k) ?s1)"
  have "0 \<le> k" "ser (sent d cmd st w) = Some (snd (reads d 0 ?s1))"
    "clock (sent d cmd st w) = clock w + loop_time d 0 ?s1"
    by (simp_all add: sent_asked)
  from collect_steps [of k d ?s1 t, OF _ _ this] assms(3,4)
  obtain w1 where h: "collect d (clock w + t) [] (sent d cmd st w) =
        collect d (clock w + t) (fst (reads d k ?s1)) w1"
    "ser w1 = Some (snd (reads d k ?s1))" "clock w1 = clock w + loop_time d k ?s1"
    "writes (io w1) = writes (io (sent d cmd st w))"
    by auto
  obtain b s where bs: "reads d k ?s1 = (b, s)"
    by (cases "reads d k ?s1") auto
  obtain chunk ms s' where r: "dev_read d s = (chunk, ms, s')"
    by (cases "dev_read d s") auto
  have raw: "reads d (Suc k) ?s1 = (b @ chunk, s')"
    using bs r by simp
  have "\<not> re_search PROMPT_REGEX b"
    using assms(4) bs by (metis fst_conv order_refl)
  then have ne: "chunk \<noteq> []"
    using assms(5) raw by auto
  then have time: "loop_time d (Suc k) ?s1 = loop_time d k ?s1 + int ms"
    using bs r by simp
  let ?w' = "w1\<lparr>ser := Some s', clock := clock w1 + int ms, io := io w1 @ [Read chunk]\<rparr>"
  have "clock w1 < clock w + t"
    using assms(3) h(3) by simp
  from collect_prompt_chunk [OF _ this r ne, of b] h(2) bs assms(5) raw
  have c: "collect d (clock w + t) b w1 = Some (b @ chunk, ?w')"
    by simp
  have "clean_output (strip cmd) ?raw = out"
    using assms(6-12) by (rule clean_output_raw)
  then have "verdict (strip cmd) (clock w + t) (b @ chunk) ?w' = (\<not> denied out, out)"
    using assms(13) raw time h(3) by (auto simp: verdict_def)
  then have "run d cmd t w = Some (Inr (\<not> denied out, out), ?w')"
    using assms(1,2) h(1) c bs by (simp add: run_open)
  moreover have "ser ?w' = Some (snd (reads d (Suc k) ?s1))"
    "clock ?w' = clock w + loop_time d (Suc k) ?s1"
    "writes (io ?w') = writes (io w) @ [strip cmd @ [10]]"
    using raw time h(3,4) by (simp_all add: sent_asked)
  ultimately show ?thesis by blast
qed

theorem run_echo_prompt_witness:
  "\<exists>w'. run (scripted 1) (str '' ls '') 6000
           (session (Some [str ''ls'' @ [13, 10],
              27 # str ''[31ma.txt'' @ 27 # str ''[0m'' @ [13, 10] @ str ''b.txt'' @ [13, 10] @
              str ''# '' @ [13, 10] @ str ''# ''])) =
             Some (Inr (True, str ''a.txt'' @ 10 # str ''b.txt''), w') \<and>
         ser w' = Some [] \<and> clock w' = 2 \<and> writes (io w') = [str ''ls'' @ [10]]"
proof -
  let ?c1 = "str ''ls'' @ [13, 10]"
  let ?c2 = "27 # str ''[31ma.txt'' @ 27 # str ''[0m'' @ [13, 10] @ str ''b.txt'' @ [13, 10] @
              str ''# '' @ [13, 10] @ str ''# ''"
  let ?out = "str ''a.txt'' @ 10 # str ''b.txt''"
  let ?w = "session (Some [?c1, ?c2])"
  have r: "reads (scripted 1) 0 [?c1, ?c2] = ([], [?c1, ?c2])"
    "reads (scripted 1) (Suc 0) [?c1, ?c2] = (?c1, [?c2])"
    "reads (scripted 1) (Suc (Suc 0)) [?c1, ?c2] = (?c1 @ ?c2, [])"
    by simp_all
  have t: "loop_time (scripted 1) 0 [?c1, ?c2] = 0" "loop_time (scripted 1) (Suc 0) [?c1, ?c2] = 1"
    "loop_time (scripted 1) (Suc (Suc 0)) [?c1, ?c2] = 2"
    by (simp_all add: str_def)
  have o: "ser ?w = Some [?c1, ?c2]" "strip (str '' ls '') \<noteq> []" "clock ?w = 0" "io ?w = []"
    "strip (str '' ls '') = str ''ls''"
    by (simp_all add: session_def text_eval)
  have a: "\<forall>j\<le>Suc 0. loop_time (scripted 1) j (asked (scripted 1) (str '' ls '') [?c1, ?c2]) < 6000"
    using t by (auto simp: le_Suc_eq)
  have q: "\<not> re_search PROMPT_REGEX []" "\<not> re_search PROMPT_REGEX ?c1"
    "re_search PROMPT_REGEX (?c1 @ ?c2)"
    by (simp_all add: text_eval)
  have b: "\<forall>j\<le>Suc 0. \<not> re_search PROMPT_REGEX
      (fst (reads (scripted 1) j (asked (scripted 1) (str '' ls '') [?c1, ?c2])))"
    using q r by (auto simp: le_Suc_eq)
  have c: "re_search PROMPT_REGEX
      (fst (reads (scripted 1) (Suc (Suc 0)) (asked (scripted 1) (str '' ls '') [?c1, ?c2])))"
    using q r by simp
  have s: "sanitize (fst (reads (scripted 1) (Suc (Suc 0)) (asked (scripted 1) (str '' ls '') [?c1, ?c2])))
      = str ''ls'' @ 10 # ?out @ 10 # join_nl [str ''# '', str ''# '']"
    unfolding asked_scripted r by (simp add: text_eval)
  have e: "10 \<notin> set (str ''ls'')" "strip (str ''ls'') = strip (str '' ls '')"
    "strip ?out = ?out" "\<not> prompt_line (last (split_nl ?out))" "?out \<noteq> []"
    "\<not> denied ?out"
    by (simp_all add: prompt_line_eval text_eval)
  have p: "[str ''# '', str ''# ''] \<noteq> []"
    "\<forall>p\<in>set [str ''# '', str ''# '']. 10 \<notin> set p \<and> prompt_line p"
    by (simp_all add: prompt_line_eval text_eval)
  from run_echo_prompt [OF o(1,2) a b c s e(1,2) p e(3,4)] e(5,6)
  show ?thesis
    unfolding asked_scripted r t o by simp
qed

text \<open>
  Claim C1 as stated fails: with a newline behind the prompt the last line of the
  transcript is empty, the loop over the trailing lines stops at once, and the prompt
  stays in the result.
\<close>

theorem run_echo_prompt_counterexample:
  "run (scripted 1) (str ''ls'') 6000
      (session (Some [str ''ls'' @ 10 # str ''hello'' @ 10 # str ''# '' @ [10]]))
     = Some (Inr (True, str ''hello'' @ 10 # str ''#''),
          \<lparr>ser = Some [], username = str ''root'', password = [], clock = 1,
            io = [ResetInput, Wrote (str ''ls'' @ [10]),
                  Read (str ''ls'' @ 10 # str ''hello'' @ 10 # str ''# '' @ [10])]\<rparr>)"
proof -
  let ?t = "str ''ls'' @ 10 # str ''hello'' @ 10 # str ''# '' @ [10]"
  let ?w = "session (Some [?t])"
  have c: "collect (scripted 1) (clock ?w + 6000) [] (sent (scripted 1) (str ''ls'') [?t] ?w) =
      Some (?t, \<lparr>ser = Some [], username = str ''root'', password = [], clock = 1,
            io = [ResetInput, Wrote (str ''ls'' @ [10]), Read ?t]\<rparr>)"
    by (subst collect_prompt_chunk [where s = "[?t]" and chunk = "?t" and ms = 1 and s' = "[]"])
       (simp_all add: sent_def session_def text_eval)
  have o: "strip (str ''ls'') \<noteq> []" "ser ?w = Some [?t]"
    by (simp_all add: session_def text_eval)
  have v: "clean_output (strip (str ''ls'')) ?t = str ''hello'' @ 10 # str ''#''"
    by (simp add: text_eval drop_prompts.simps)
  have n: "\<not> denied (str ''hello'' @ 10 # str ''#'')"
    by (simp add: text_eval)
  show ?thesis
    unfolding run_open [OF o(2) o(1)] c
    by (simp add: verdict_def v n)
qed

text \<open>What the read loop does with a chunk that does not bring the prompt.\<close>

lemma collect_more_chunk:
  assumes "ser w = Some s" "clock w < endt" "dev_read d s = (chunk, ms, s')" "chunk \<noteq> []"
    and "\<not> re_search PROMPT_REGEX (collected @ chunk)"
  shows "collect d endt collected w =
           collect d endt (collected @ chunk)
             (w\<lparr>ser := Some s', clock := clock w + int ms, io := io w @ [Read chunk]\<rparr>)"
  using assms by (subst collect.simps) (simp add: read_some_def)

lemma collect_scripted_quiet:
  "ser w = Some [] \<Longrightarrow> \<exists>w'. collect (scripted ms) endt c w = Some (c, w')"
proof (induction "nat (endt - clock w)" arbitrary: w rule: less_induct)
  case less
  show ?case
  proof (cases "clock w < endt")
    case False
    then show ?thesis by (subst collect.simps) simp
  next
    case True
    let ?w = "sleep 20 (w\<lparr>ser := Some [], clock := clock w + int ms, io := io w @ [Read []]\<rparr>)"
    have "collect (scripted ms) endt c w = collect (scripted ms) endt c ?w"
      using True less.prems by (subst collect.simps) (simp add: read_some_def)
    moreover have "nat (endt - clock ?w) < nat (endt - clock w)" "ser ?w = Some []"
      using True by (simp_all add: sleep_def)
    ultimately show ?thesis
      using less.hyps [of ?w] by simp
  qed
qed

text \<open>
  Claim C2, amended.  Let \<open>n\<close> rounds of the read loop start before the deadline and the
  deadline be over after them, and let the prompt pattern not be found in what these
  reads deliver (what the port sends later does not matter).  Then \<open>run\<close> returns when
  the \<open>n\<close>th round ends, and its result depends on the cleaned text of exactly these
  reads: \<open>(False, text)\<close> when it holds a permission denial, \<open>(False, "[timeout]")\<close>
  when it is empty, and \<open>(True, text)\<close> otherwise.
\<close>

theorem run_timeout:
  assumes "ser w = Some st" "strip cmd \<noteq> []"
    and "\<forall>j<n. loop_time d j (asked d cmd st) < t"
    and "t \<le> loop_time d n (asked d cmd st)"
    and "\<forall>j\<le>n. \<not> re_search PROMPT_REGEX (fst (reads d j (asked d cmd st)))"
  shows "\<exists>w'. run d cmd t w =
               Some (Inr (if denied (clean_output (strip cmd) (fst (reads d n (asked d cmd st))))
                          then (False, clean_output (strip cmd) (fst (reads d n (asked d cmd st))))
                          else if clean_output (strip cmd) (fst (reads d n (asked d cmd st))) = []
                          then (False, str ''[timeout]'')
                          else (True, clean_output (strip cmd) (fst (reads d n (asked d cmd st))))),
                     w') \<and>
           ser w' = Some (snd (reads d n (asked d cmd st))) \<and>
           clock w' = clock w + loop_time d n (asked d cmd st) \<and>
           writes (io w') = writes (io w) @ [strip cmd @ [10]]"
proof -
  let ?s1 = "asked d cmd st"
  have "0 \<le> n" "ser (sent d cmd st w) = Some (snd (reads d 0 ?s1))"
    "clock (sent d cmd st w) = clock w + loop_time d 0 ?s1"
    by (simp_all add: sent_asked)
  from collect_steps [of n d ?s1 t, OF _ _ this] assms(3,5)
  obtain w1 where h: "collect d (clock w + t) [] (sent d cmd st w) =
        collect d (clock w + t) (fst (reads d n ?s1)) w1"
    "ser w1 = Some (snd (reads d n ?s1))" "clock w1 = clock w + loop_time d n ?s1"
    "writes (io w1) = writes (io (sent d cmd st w))"
    by auto
  have late: "\<not> clock w1 < clock w + t"
    using assms(4) h(3) by simp
  then have "collect d (clock w + t) (fst (reads d n ?s1)) w1 = Some (fst (reads d n ?s1), w1)"
    by (subst collect.simps) simp
  then have "run d cmd t w =
      Some (Inr (verdict (strip cmd) (clock w + t) (fst (reads d n ?s1)) w1), w1)"
    using assms(1,2) h(1) by (simp add: run_open)
  then show ?thesis
    using late h(2,3,4) by (intro exI [of _ w1]) (simp add: verdict_def Let_def sent_asked)
qed


theorem run_timeout_witness:
  "\<exists>w'. run (scripted 100) (str ''ls'') 300
           (session (Some [str ''hello'' @ [10], [], [], str ''# ''])) =
             Some (Inr (True, str ''hello''), w') \<and>
         ser w' = Some [str ''# ''] \<and> clock w' = 340 \<and> writes (io w') = [str ''ls'' @ [10]]"
proof -
  let ?c = "str ''hello'' @ [10]"
  let ?s = "[?c, [], [], str ''# '']"
  let ?w = "session (Some ?s)"
  have r: "reads (scripted 100) 0 ?s = ([], ?s)"
    "reads (scripted 100) (Suc 0) ?s = (?c, [[], [], str ''# ''])"
    "reads (scripted 100) (Suc (Suc 0)) ?s = (?c, [[], str ''# ''])"
    "reads (scripted 100) (Suc (Suc (Suc 0))) ?s = (?c, [str ''# ''])"
    by simp_all
  have t: "loop_time (scripted 100) 0 ?s = 0" "loop_time (scripted 100) (Suc 0) ?s = 100"
    "loop_time (scripted 100) (Suc (Suc 0)) ?s = 220"
    "loop_time (scripted 100) (Suc (Suc (Suc 0))) ?s = 340"
    by (simp_all add: str_def)
  have o: "ser ?w = Some ?s" "strip (str ''ls'') \<noteq> []" "clock ?w = 0" "io ?w = []"
    "strip (str ''ls'') = str ''ls''"
    by (simp_all add: session_def text_eval)
  have a: "\<forall>j<Suc (Suc (Suc 0)). loop_time (scripted 100) j (asked (scripted 100) (str ''ls'') ?s) < 300"
    using t by (auto simp: less_Suc_eq)
  have l: "300 \<le> loop_time (scripted 100) (Suc (Suc (Suc 0))) (asked (scripted 100) (str ''ls'') ?s)"
    using t by simp
  have q: "\<not> re_search PROMPT_REGEX []" "\<not> re_search PROMPT_REGEX ?c"
    by (simp_all add: text_eval)
  have b: "\<forall>j\<le>Suc (Suc (Suc 0)). \<not> re_search PROMPT_REGEX
      (fst (reads (scripted 100) j (asked (scripted 100) (str ''ls'') ?s)))"
    using q r by (auto simp: le_Suc_eq)
  have v: "clean_output (str ''ls'') ?c = str ''hello''" "\<not> denied (str ''hello'')"
    "str ''hello'' \<noteq> []"
    by (simp_all add: text_eval drop_prompts.simps)
  from run_timeout [OF o(1,2) a l b]
  show ?thesis
    unfolding asked_scripted r t o by (simp add: v)
qed

text \<open>
  Claim C2 as stated fails: a port that sends \<open>hello\<close> and then stays silent lets the
  timeout of six seconds pass without a prompt, and \<open>run\<close> returns \<open>(True, "hello")\<close>.
\<close>

theorem run_timeout_counterexample:
  "map_option fst (run (scripted 100) (str ''ls'') 6000 (session (Some [str ''hello'' @ [10]]))) =
     Some (Inr (True, str ''hello''))"
proof -
  let ?t = "str ''hello'' @ [10]"
  let ?w = "session (Some [?t])"
  let ?w1 = "(sent (scripted 100) (str ''ls'') [?t] ?w)\<lparr>ser := Some [], clock := 100, io := [ResetInput, Wrote (str ''ls'' @ [10]), Read ?t]\<rparr>"
  have "collect (scripted 100) (clock ?w + 6000) [] (sent (scripted 100) (str ''ls'') [?t] ?w) =
      collect (scripted 100) (clock ?w + 6000) ?t ?w1"
    by (subst collect_more_chunk [where s = "[?t]" and chunk = "?t" and ms = 100 and s' = "[]"])
       (simp_all add: sent_def session_def text_eval)
  moreover obtain w' where "collect (scripted 100) (clock ?w + 6000) ?t ?w1 = Some (?t, w')"
    using collect_scripted_quiet [of ?w1 100 "clock ?w + 6000" ?t] by auto
  ultimately have c: "collect (scripted 100) (clock ?w + 6000) [] (sent (scripted 100) (str ''ls'') [?t] ?w) = Some (?t, w')"
    by simp
  have o: "ser ?w = Some [?t]" "strip (str ''ls'') \<noteq> []"
    by (simp_all add: session_def text_eval)
  have v: "clean_output (strip (str ''ls'')) ?t = str ''hello''" "\<not> denied (str ''hello'')"
    "str ''hello'' \<noteq> []"
    by (simp_all add: text_eval drop_prompts.simps)
  show ?thesis
    unfolding run_open [OF o] c by (simp add: verdict_def v Let_def)
qed

text \<open>
  Claim C4.  Whenever the cleaned text of a command holds \<open>Operation not permitted\<close> or
  \<open>Permission denied\<close>, \<open>run\<close> returns \<open>ok = False\<close> with that text, however the read
  loop ended; the witness is a transcript that ends with a prompt.
\<close>

theorem denial_fails:
  assumes "ser w = Some st" "strip cmd \<noteq> []"
    and "collect d (clock w + t) [] (sent d cmd st w) = Some (collected, w')"
    and "denied (clean_output (strip cmd) collected)"
  shows "run d cmd t w = Some (Inr (False, clean_output (strip cmd) collected), w')"
  using assms by (simp add: run_open verdict_def Let_def)

theorem denial_fails_witness:
  "run (scripted 1) (str ''cat /x'') 6000
      (session (Some [str ''cat /x'' @ 10 # str ''cat: /x: Permission denied'' @ 10 # str ''# '']))
     = Some (Inr (False, str ''cat: /x: Permission denied''),
          \<lparr>ser = Some [], username = str ''root'', password = [], clock = 1,
            io = [ResetInput, Wrote (str ''cat /x'' @ [10]),
                  Read (str ''cat /x'' @ 10 # str ''cat: /x: Permission denied'' @ 10 # str ''# '')]\<rparr>)"
proof -
  let ?t = "str ''cat /x'' @ 10 # str ''cat: /x: Permission denied'' @ 10 # str ''# ''"
  let ?w = "session (Some [?t])"
  have c: "collect (scripted 1) (clock ?w + 6000) [] (sent (scripted 1) (str ''cat /x'') [?t] ?w) =
      Some (?t, \<lparr>ser = Some [], username = str ''root'', password = [], clock = 1,
            io = [ResetInput, Wrote (str ''cat /x'' @ [10]), Read ?t]\<rparr>)"
    by (subst collect_prompt_chunk [where s = "[?t]" and chunk = "?t" and ms = 1 and s' = "[]"])
       (simp_all add: sent_def session_def text_eval)
  have o: "ser ?w = Some [?t]" "strip (str ''cat /x'') \<noteq> []"
    by (simp_all add: session_def text_eval)
  have v: "clean_output (strip (str ''cat /x'')) ?t = str ''cat: /x: Permission denied''"
    by (simp add: text_eval drop_prompts.simps)
  have n: "denied (str ''cat: /x: Permission denied'')"
    by (simp add: text_eval)
  show ?thesis
    using denial_fails [OF o(1) o(2) c] v n by simp
qed

subsection \<open>Commands without a session, blank commands\<close>

lemma strip_blank:
  assumes "\<forall>c\<in>set s. is_space c"
  shows "strip s = []"
proof -
  have blank: "dropWhile is_space s = []"
    using assms by simp
  show ?thesis
    unfolding strip_def blank by simp
qed

text \<open>
  Claim C3.  Without an open session \<open>run\<close> fails at once: it returns
  \<open>(False, "Not connected")\<close> whatever the command and the timeout are, and the
  executor, the clock and the list of port calls are as before, so nothing was written
  or read.  \<open>_write\<close> raises its \<open>RuntimeError("Not connected")\<close> in that state.
\<close>

theorem run_not_connected:
  "ser w = None \<Longrightarrow>
     run d cmd timeout_s w = Some (Inr (False, str ''Not connected''), w) \<and>
     write_str d s w = Inl (RuntimeError (str ''Not connected''))"
  by (simp add: run_def write_str_def)

theorem run_not_connected_witness:
  "ser (session None :: nat shell) = None \<and>
   run (scripted 1) (str ''ls'') 6000 (session None) =
     Some (Inr (False, str ''Not connected''), session None)"
  using run_not_connected [of "session None" "scripted 1" "str ''ls''" 6000]
  by (simp add: session_def)

text \<open>
  Claim C5.  On an open session a command that is empty or consists of whitespace only
  returns \<open>(True, "")\<close> for every timeout, and the executor, the clock and the list of
  port calls are as before.
\<close>

theorem run_blank_command:
  "ser w \<noteq> None \<Longrightarrow> \<forall>c\<in>set cmd. is_space c \<Longrightarrow>
     run d cmd timeout_s w = Some (Inr (True, []), w)"
  by (auto simp: run_def strip_blank split: option.splits)

theorem run_blank_command_witness:
  "run (scripted 1) [] 6000 (session (Some [])) = Some (Inr (True, []), session (Some [])) \<and>
   run (scripted 1) (str ''   '') 6000 (session (Some [])) =
     Some (Inr (True, []), session (Some []))"
  using run_blank_command [of "session (Some [])" "[]" "scripted 1" 6000]
        run_blank_command [of "session (Some [])" "str ''   ''" "scripted 1" 6000]
  by (simp add: session_def str_def is_space_def)

text \<open>
  Claim C10.  Without an open session \<open>ensure_shell\<close> returns \<open>(False, "Not connected")\<close>
  for every overall timeout: it is a return value, not an exception, and the executor,
  the clock and the list of port calls are as before.
\<close>

theorem ensure_shell_not_connected:
  "ser w = None \<Longrightarrow>
     ensure_shell d overall_timeout w = Some (Inr (False, str ''Not connected''), w)"
  by (simp add: ensure_shell_def)

theorem ensure_shell_not_connected_witness:
  "ensure_shell (scripted 1) 15000 (session None) =
     Some (Inr (False, str ''Not connected''), session None)"
  using ensure_shell_not_connected [of "session None" "scripted 1" 15000]
  by (simp add: session_def)

subsection \<open>Waiting for a prompt that never comes\<close>

lemmas pattern_eval = str_def is_space_def re_search_def PROMPT_REGEX_def LOGIN_REGEX_def
  PASSWORD_REGEX_def ACTIVATE_REGEX_def ci_lit_def ci_def

lemma drain_loop_reach:
  assumes "read_times d s0 R"
  shows "ser w = Some s \<Longrightarrow> reach d s0 s (b @ out) \<Longrightarrow>
     \<exists>out' w' s'. drain_loop d endt out w = Some (out', w') \<and> ser w' = Some s' \<and>
        reach d s0 s' (b @ out') \<and> username w' = username w \<and> password w' = password w \<and>
        endt \<le> clock w' \<and> clock w \<le> clock w' \<and> clock w' \<le> max (clock w) (endt + int R + 20)"
proof (induction "nat (endt - clock w)" arbitrary: w s out rule: less_induct)
  case less
  show ?case
  proof (cases "clock w < endt")
    case False
    then have "drain_loop d endt out w = Some (out, w)"
      by (subst drain_loop.simps) simp
    with False less.prems show ?thesis by auto
  next
    case True
    obtain chunk ms s1 where r: "dev_read d s = (chunk, ms, s1)"
      by (cases "dev_read d s") auto
    have t: "ms \<le> R" "chunk \<noteq> [] \<longrightarrow> 0 < ms"
      using assms less.prems(2) r unfolding read_times_def by blast+
    have r1: "reach d s0 s1 (b @ out @ chunk)"
      using reach.after_read [OF less.prems(2) r] by simp
    let ?w1 = "w\<lparr>ser := Some s1, clock := clock w + int ms, io := io w @ [Read chunk]\<rparr>"
    show ?thesis
    proof (cases "chunk = []")
      case False
      have u: "drain_loop d endt out w = drain_loop d endt (out @ chunk) ?w1"
        using True False less.prems(1) r by (subst drain_loop.simps) (simp add: read_some_def)
      have "nat (endt - clock ?w1) < nat (endt - clock w)"
        using True False t by simp
      from less.hyps [OF this, of s1 "out @ chunk"] r1
      obtain out' w' s' where h: "drain_loop d endt (out @ chunk) ?w1 = Some (out', w')" "ser w' = Some s'"
        "reach d s0 s' (b @ out')" "username w' = username ?w1" "password w' = password ?w1"
        "endt \<le> clock w'" "clock ?w1 \<le> clock w'" "clock w' \<le> max (clock ?w1) (endt + int R + 20)"
        by auto
      have "clock w \<le> clock w'" "clock w' \<le> max (clock w) (endt + int R + 20)"
        using h(7,8) True t by auto
      with h u show ?thesis by auto
    next
      case e: True
      let ?w2 = "sleep 20 ?w1"
      have u: "drain_loop d endt out w = drain_loop d endt out ?w2"
        using True e less.prems(1) r by (subst drain_loop.simps) (simp add: read_some_def)
      have "nat (endt - clock ?w2) < nat (endt - clock w)" "ser ?w2 = Some s1"
        using True by (simp_all add: sleep_def)
      from less.hyps [OF this, of out] r1 e
      obtain out' w' s' where h: "drain_loop d endt out ?w2 = Some (out', w')" "ser w' = Some s'"
        "reach d s0 s' (b @ out')" "username w' = username ?w2" "password w' = password ?w2"
        "endt \<le> clock w'" "clock ?w2 \<le> clock w'" "clock w' \<le> max (clock ?w2) (endt + int R + 20)"
        by auto
      have "clock w \<le> clock w'" "clock w' \<le> max (clock w) (endt + int R + 20)"
        using h(7,8) True t by (auto simp: sleep_def)
      with h u show ?thesis by (auto simp: sleep_def)
    qed
  qed
qed

lemma drain_reach:
  assumes "read_times d s0 R" "ser w = Some s" "reach d s0 s b" "0 \<le> duration"
  shows "\<exists>out' w' s'. drain d duration w = Some (out', w') \<and> ser w' = Some s' \<and>
        reach d s0 s' (b @ out') \<and> username w' = username w \<and> password w' = password w \<and>
        clock w + duration \<le> clock w' \<and> clock w' \<le> clock w + duration + int R + 20"
proof -
  from drain_loop_reach [OF assms(1,2), of b "[]" "clock w + duration"] assms(3)
  obtain out' w' s' where h: "drain_loop d (clock w + duration) [] w = Some (out', w')" "ser w' = Some s'"
        "reach d s0 s' (b @ out')" "username w' = username w" "password w' = password w"
        "clock w + duration \<le> clock w'" "clock w' \<le> max (clock w) (clock w + duration + int R + 20)"
    by auto
  have "clock w' \<le> clock w + duration + int R + 20"
    using h(7) assms(4) by auto
  with h show ?thesis
    unfolding drain_def by blast
qed

lemma wake_reach:
  assumes "read_times d s0 R"
  shows "ser w = Some s \<Longrightarrow> reach d s0 s buf \<Longrightarrow>
     \<exists>buf' w' s'. wake d n buf w = Some (Inr buf', w') \<and> ser w' = Some s' \<and>
        reach d s0 s' buf' \<and> username w' = username w \<and> password w' = password w \<and>
        clock w + 430 * int n \<le> clock w' \<and> clock w' \<le> clock w + (450 + int R) * int n"
proof (induction n arbitrary: w s buf)
  case 0
  then show ?case by auto
next
  case (Suc n)
  let ?w1 = "sleep 80 (w\<lparr>ser := Some (dev_write d [10] s), io := io w @ [Wrote [10]]\<rparr>)"
  have "ser ?w1 = Some (dev_write d [10] s)" "reach d s0 (dev_write d [10] s) buf"
    using Suc.prems by (simp_all add: sleep_def reach.after_write)
  from drain_reach [OF assms this, of 350]
  obtain out w2 s2 where h: "drain d 350 ?w1 = Some (out, w2)" "ser w2 = Some s2"
    "reach d s0 s2 (buf @ out)" "username w2 = username ?w1" "password w2 = password ?w1"
    "clock ?w1 + 350 \<le> clock w2" "clock w2 \<le> clock ?w1 + 350 + int R + 20"
    by auto
  from Suc.IH [OF h(2,3)]
  obtain buf' w' s' where k: "wake d n (buf @ out) w2 = Some (Inr buf', w')" "ser w' = Some s'"
    "reach d s0 s' buf'" "username w' = username w2" "password w' = password w2"
    "clock w2 + 430 * int n \<le> clock w'" "clock w' \<le> clock w2 + (450 + int R) * int n"
    by auto
  have "wake d (Suc n) buf w = Some (Inr buf', w')"
    using Suc.prems(1) h(1) k(1) by (simp add: write_str_def)
  moreover have "clock w + 430 * int (Suc n) \<le> clock w'" "clock w' \<le> clock w + (450 + int R) * int (Suc n)"
    using h(6,7) k(6,7) by (simp_all add: sleep_def algebra_simps)
  ultimately show ?case
    using k h by (auto simp: sleep_def)
qed

lemma poll_reach:
  assumes "read_times d s0 R" "never_matches d s0"
  shows "ser w = Some s \<Longrightarrow> reach d s0 s buf \<Longrightarrow>
     \<exists>w'. poll d start T buf w = Some (Inr (False, str ''Prompt not detected (timeout).''), w') \<and>
        T \<le> clock w' - start \<and> clock w \<le> clock w' \<and>
        clock w' \<le> max (clock w) (start + T + 430 + int R)"
proof (induction "nat (T - (clock w - start))" arbitrary: w s buf rule: less_induct)
  case less
  show ?case
  proof (cases "clock w - start < T")
    case False
    then have "poll d start T buf w = Some (Inr (False, str ''Prompt not detected (timeout).''), w)"
      by (subst poll.simps) simp
    with False show ?thesis by auto
  next
    case True
    let ?w1 = "sleep 60 (w\<lparr>ser := Some (dev_write d [10] s), io := io w @ [Wrote [10]]\<rparr>)"
    have "ser ?w1 = Some (dev_write d [10] s)" "reach d s0 (dev_write d [10] s) buf"
      using less.prems by (simp_all add: sleep_def reach.after_write)
    from drain_reach [OF assms(1) this, of 350]
    obtain out w2 s2 where h: "drain d 350 ?w1 = Some (out, w2)" "ser w2 = Some s2"
      "reach d s0 s2 (buf @ out)" "username w2 = username ?w1" "password w2 = password ?w1"
      "clock ?w1 + 350 \<le> clock w2" "clock w2 \<le> clock ?w1 + 350 + int R + 20"
      by auto
    have n: "\<not> re_search PROMPT_REGEX (buf @ out)" "\<not> re_search LOGIN_REGEX (buf @ out)"
      "\<not> re_search PASSWORD_REGEX (buf @ out)" "\<not> re_search ACTIVATE_REGEX (buf @ out)"
      using assms(2) h(3) unfolding never_matches_def by blast+
    have u: "poll d start T buf w = poll d start T (buf @ out) w2"
      using True less.prems(1) h(1) n
      by (subst poll.simps) (simp add: write_str_def answer_def)
    have "nat (T - (clock w2 - start)) < nat (T - (clock w - start))"
      using True h(6) by (simp add: sleep_def)
    from less.hyps [OF this h(2,3)]
    obtain w' where k: "poll d start T (buf @ out) w2 = Some (Inr (False, str ''Prompt not detected (timeout).''), w')"
      "T \<le> clock w' - start" "clock w2 \<le> clock w'" "clock w' \<le> max (clock w2) (start + T + 430 + int R)"
      by auto
    have "clock w \<le> clock w'" "clock w' \<le> max (clock w) (start + T + 430 + int R)"
      using True h(6,7) k(3,4) by (auto simp: sleep_def)
    with u k show ?thesis by auto
  qed
qed

text \<open>
  Claim C8.  Let the port never deliver text in which one of the four patterns is found,
  let every read take at most \<open>R\<close> milliseconds, and a read that delivers text take time.
  Then \<open>ensure_shell\<close> with the overall timeout \<open>T\<close> returns
  \<open>(False, "Prompt not detected (timeout).")\<close>, and from the call to the return at least
  \<open>T + 860\<close> and at most \<open>max 0 T + 1330 + 3 R\<close> milliseconds pass: the two wake rounds
  and then one round of the poll loop after the other until \<open>T\<close> is over.
\<close>

theorem ensure_shell_timeout:
  assumes "ser w = Some s0" "never_matches d s0" "read_times d s0 R"
  shows "\<exists>w'. ensure_shell d T w = Some (Inr (False, str ''Prompt not detected (timeout).''), w') \<and>
           T + 860 \<le> clock w' - clock w \<and> clock w' - clock w \<le> max 0 T + 1330 + 3 * int R"
proof -
  from wake_reach [OF assms(3,1) reach.start, of 2]
  obtain buf w1 s1 where h: "wake d 2 [] w = Some (Inr buf, w1)" "ser w1 = Some s1"
    "reach d s0 s1 buf" "clock w + 860 \<le> clock w1" "clock w1 \<le> clock w + 900 + 2 * int R"
    by auto
  from poll_reach [OF assms(3,2) h(2,3), of "clock w1" T]
  obtain w' where k: "poll d (clock w1) T buf w1 = Some (Inr (False, str ''Prompt not detected (timeout).''), w')"
    "T \<le> clock w' - clock w1" "clock w1 \<le> clock w'" "clock w' \<le> max (clock w1) (clock w1 + T + 430 + int R)"
    by auto
  have "ensure_shell d T w = Some (Inr (False, str ''Prompt not detected (timeout).''), w')"
    using assms(1) h(1) k(1) by (simp add: ensure_shell_def)
  moreover have "T + 860 \<le> clock w' - clock w" "clock w' - clock w \<le> max 0 T + 1330 + 3 * int R"
    using h(4,5) k(2,3,4) by auto
  ultimately show ?thesis by blast
qed

lemma scripted_reach:
  "reach (scripted ms) [c] s b \<Longrightarrow> (s = [c] \<and> b = []) \<or> (s = [] \<and> b = c)"
  by (induction rule: reach.induct) auto

lemma scripted_read_time: "dev_read (scripted ms) s = (chunk, m, s') \<Longrightarrow> m = ms"
  by (cases s) auto

theorem ensure_shell_timeout_witness:
  "\<exists>w'. ensure_shell (scripted 100) 15000 (session (Some [str ''Starting kernel ...'' @ [10]])) =
           Some (Inr (False, str ''Prompt not detected (timeout).''), w') \<and>
         15860 \<le> clock w' \<and> clock w' \<le> 16630"
proof -
  let ?c = "str ''Starting kernel ...'' @ [10]"
  let ?w = "session (Some [?c])"
  have quiet: "\<not> re_search PROMPT_REGEX []" "\<not> re_search LOGIN_REGEX []"
    "\<not> re_search PASSWORD_REGEX []" "\<not> re_search ACTIVATE_REGEX []"
    "\<not> re_search PROMPT_REGEX ?c" "\<not> re_search LOGIN_REGEX ?c"
    "\<not> re_search PASSWORD_REGEX ?c" "\<not> re_search ACTIVATE_REGEX ?c"
    by (simp_all add: pattern_eval)
  have a: "never_matches (scripted 100) [?c]"
    unfolding never_matches_def using scripted_reach [of 100 ?c] quiet by blast
  have b: "read_times (scripted 100) [?c] 100"
    unfolding read_times_def by (auto dest!: scripted_read_time)
  have c: "ser ?w = Some [?c]" "clock ?w = 0"
    by (simp_all add: session_def)
  from ensure_shell_timeout [OF c(1) a b, of 15000]
  show ?thesis
    unfolding c(2) by simp
qed

subsection \<open>The login dialogue\<close>

lemma moved_trans:
  "moved w w1 s1 ws1 lo1 hi1 \<Longrightarrow> moved w1 w2 s2 ws2 lo2 hi2 \<Longrightarrow>
     moved w w2 s2 (ws1 @ ws2) (lo1 + lo2) (hi1 + hi2)"
  by (auto simp: moved_def)

lemma responder_simps [simp]:
  "dev_read (responder ms) ([], rules) = ([], ms, ([], rules))"
  "dev_read (responder ms) (c # q, rules) = (c, ms, (q, rules))"
  "dev_write (responder ms) x ([], rules) =
     ((if rules \<noteq> [] \<and> x = fst (hd rules) then [fst (fire x rules)] else []), snd (fire x rules))"
  by (auto simp: responder_def split: list.splits)

lemma drain_loop_responder_empty:
  "ser w = Some ([], rules) \<Longrightarrow>
     \<exists>w'. drain_loop (responder ms) endt out w = Some (out, w') \<and> ser w' = Some ([], rules) \<and>
        username w' = username w \<and> password w' = password w \<and> writes (io w') = writes (io w) \<and>
        endt \<le> clock w' \<and> clock w \<le> clock w' \<and> clock w' \<le> max (clock w) (endt + int ms + 20)"
proof (induction "nat (endt - clock w)" arbitrary: w rule: less_induct)
  case less
  show ?case
  proof (cases "clock w < endt")
    case False
    then have "drain_loop (responder ms) endt out w = Some (out, w)"
      by (subst drain_loop.simps) simp
    with False less.prems show ?thesis by auto
  next
    case True
    let ?w = "sleep 20 (w\<lparr>ser := Some ([], rules), clock := clock w + int ms, io := io w @ [Read []]\<rparr>)"
    have u: "drain_loop (responder ms) endt out w = drain_loop (responder ms) endt out ?w"
      using True less.prems by (subst drain_loop.simps) (simp add: read_some_def)
    have "nat (endt - clock ?w) < nat (endt - clock w)" "ser ?w = Some ([], rules)"
      using True by (simp_all add: sleep_def)
    from less.hyps [OF this]
    obtain w' where h: "drain_loop (responder ms) endt out ?w = Some (out, w')" "ser w' = Some ([], rules)"
        "username w' = username ?w" "password w' = password ?w" "writes (io w') = writes (io ?w)"
        "endt \<le> clock w'" "clock ?w \<le> clock w'" "clock w' \<le> max (clock ?w) (endt + int ms + 20)"
      by auto
    have "clock w \<le> clock w'" "clock w' \<le> max (clock w) (endt + int ms + 20)"
      using h(7,8) True by (auto simp: sleep_def)
    with h u show ?thesis by (auto simp: sleep_def)
  qed
qed

lemma drain_responder:
  assumes "ser w = Some (q, rules)" "length q \<le> 1" "0 < t"
  shows "\<exists>w'. drain (responder ms) t w = Some (concat q, w') \<and>
           moved w w' ([], rules) [] t (t + int ms + 20)"
proof (cases q)
  case Nil
  from drain_loop_responder_empty [of w rules ms "clock w + t" "[]"] assms Nil
  show ?thesis
    unfolding drain_def moved_def by auto
next
  case (Cons c q')
  with assms have q: "q = [c]" by simp
  let ?w1 = "w\<lparr>ser := Some ([], rules), clock := clock w + int ms, io := io w @ [Read c]\<rparr>"
  let ?w2 = "if c \<noteq> [] then ?w1 else sleep 20 ?w1"
  have u: "drain_loop (responder ms) (clock w + t) [] w = drain_loop (responder ms) (clock w + t) c ?w2"
    using assms q by (subst drain_loop.simps) (simp add: read_some_def)
  have "ser ?w2 = Some ([], rules)"
    by (simp add: sleep_def)
  from drain_loop_responder_empty [OF this, of ms "clock w + t" c]
  obtain w' where h: "drain_loop (responder ms) (clock w + t) c ?w2 = Some (c, w')" "ser w' = Some ([], rules)"
        "username w' = username ?w2" "password w' = password ?w2" "writes (io w') = writes (io ?w2)"
        "clock w + t \<le> clock w'" "clock ?w2 \<le> clock w'" "clock w' \<le> max (clock ?w2) (clock w + t + int ms + 20)"
    by auto
  have "clock w' \<le> clock w + t + int ms + 20"
    using h(8) assms(3) by (auto simp: sleep_def split: if_splits)
  with h u q show ?thesis
    unfolding drain_def moved_def by (auto simp: sleep_def split: if_splits)
qed

text \<open>Write, pause, drain: what \<open>hear\<close> describes.\<close>

lemma nudge_tracks:
  assumes "tracks ms w0 w s" "0 \<le> pause" "0 < t"
  shows "\<exists>w1 w'. write_str (responder ms) x w = Inr w1 \<and>
           drain (responder ms) t (sleep pause w1) = Some (fst (fire x (rules_left s)), w') \<and>
           tracks ms w0 w' (hear x (pause + t) s)"
proof -
  let ?q = "if rules_left s \<noteq> [] \<and> x = fst (hd (rules_left s)) then [fst (fire x (rules_left s))] else []"
  let ?w1 = "w\<lparr>ser := Some (?q, snd (fire x (rules_left s))), io := io w @ [Wrote x]\<rparr>"
  have w: "ser w = Some ([], rules_left s)"
    using assms(1) by (simp add: tracks_def moved_def)
  then have a: "write_str (responder ms) x w = Inr ?w1"
    by (simp add: write_str_def)
  have c: "concat ?q = fst (fire x (rules_left s))"
    by (cases "rules_left s") auto
  have "ser (sleep pause ?w1) = Some (?q, snd (fire x (rules_left s)))" "length ?q \<le> 1"
    by (simp_all add: sleep_def)
  from drain_responder [OF this assms(3), of ms] c
  obtain w' where h: "drain (responder ms) t (sleep pause ?w1) = Some (fst (fire x (rules_left s)), w')"
     "moved (sleep pause ?w1) w' ([], snd (fire x (rules_left s))) [] t (t + int ms + 20)"
    by auto
  have "moved w (sleep pause ?w1) (?q, snd (fire x (rules_left s))) [x] pause pause"
    by (simp add: moved_def sleep_def)
  from moved_trans [OF this h(2)]
  have "moved w w' ([], snd (fire x (rules_left s))) [x] (pause + t) (pause + (t + int ms + 20))"
    by simp
  from moved_trans [OF assms(1) [unfolded tracks_def] this]
  have "tracks ms w0 w' (hear x (pause + t) s)"
    unfolding tracks_def hear_def by (simp add: algebra_simps)
  with a h(1) show ?thesis by blast
qed

lemma answer_tracks:
  assumes "tracks ms w0 w s" "0 < t"
  shows "\<exists>w'. answer (responder ms) pattern x t (heard s) w = Some (Inr (heard (talk pattern x t s)), w') \<and>
           tracks ms w0 w' (talk pattern x t s)"
proof (cases "re_search pattern (heard s)")
  case False
  with assms show ?thesis
    by (simp add: answer_def talk_def)
next
  case True
  from nudge_tracks [OF assms(1) _ assms(2), of 0 x]
  obtain w1 w' where h: "write_str (responder ms) x w = Inr w1"
     "drain (responder ms) t (sleep 0 w1) = Some (fst (fire x (rules_left s)), w')"
     "tracks ms w0 w' (hear x t s)"
    by auto
  have "sleep 0 w1 = w1"
    by (simp add: sleep_def)
  with h True show ?thesis
    by (simp add: answer_def talk_def hear_def)
qed

lemma wake_tracks:
  "tracks ms w0 w s \<Longrightarrow>
     \<exists>w'. wake (responder ms) n (heard s) w = Some (Inr (heard ((hear [10] 430 ^^ n) s)), w') \<and>
        tracks ms w0 w' ((hear [10] 430 ^^ n) s)"
proof (induction n arbitrary: w s)
  case 0
  then show ?case by simp
next
  case (Suc n)
  from nudge_tracks [OF Suc.prems, of 80 350 "[10]"]
  obtain w1 w2 where h: "write_str (responder ms) [10] w = Inr w1"
     "drain (responder ms) 350 (sleep 80 w1) = Some (fst (fire [10] (rules_left s)), w2)"
     "tracks ms w0 w2 (hear [10] 430 s)"
    by auto
  from Suc.IH [OF h(3)]
  obtain w' where k: "wake (responder ms) n (heard (hear [10] 430 s)) w2 =
      Some (Inr (heard ((hear [10] 430 ^^ n) (hear [10] 430 s))), w')"
     "tracks ms w0 w' ((hear [10] 430 ^^ n) (hear [10] 430 s))"
    by auto
  have "heard (hear [10] 430 s) = heard s @ fst (fire [10] (rules_left s))"
    by (simp add: hear_def)
  with h k show ?case
    by (auto simp: funpow_swap1)
qed

lemma tracks_names: "tracks ms w0 w s \<Longrightarrow> username w = username w0 \<and> password w = password w0"
  by (simp add: tracks_def moved_def)

lemma poll_tracks:
  assumes "tracks ms w0 w s" "clock w - start < T"
  shows "if re_search PROMPT_REGEX (heard (hear [10] 410 s))
         then \<exists>w'. poll (responder ms) start T (heard s) w =
                      Some (Inr (True, str ''Shell prompt detected.''), w') \<and>
                    tracks ms w0 w' (hear [10] 410 s)
         else \<exists>w'. poll (responder ms) start T (heard s) w =
                      poll (responder ms) start T (heard (round (username w0) (password w0) s)) w' \<and>
                    tracks ms w0 w' (round (username w0) (password w0) s)"
proof -
  let ?s1 = "hear [10] 410 s"
  from nudge_tracks [OF assms(1), of 60 350 "[10]"]
  obtain w1 w2 where h: "write_str (responder ms) [10] w = Inr w1"
     "drain (responder ms) 350 (sleep 60 w1) = Some (fst (fire [10] (rules_left s)), w2)"
     "tracks ms w0 w2 ?s1"
    by auto
  have b1: "heard s @ fst (fire [10] (rules_left s)) = heard ?s1"
    by (simp add: hear_def)
  show ?thesis
  proof (cases "re_search PROMPT_REGEX (heard ?s1)")
    case True
    have "poll (responder ms) start T (heard s) w = Some (Inr (True, str ''Shell prompt detected.''), w2)"
      using assms(2) h(1,2) True b1 by (subst poll.simps) simp
    with True h(3) show ?thesis by auto
  next
    case False
    let ?s2 = "talk LOGIN_REGEX (username w0 @ [10]) 800 ?s1"
    let ?s3 = "talk PASSWORD_REGEX (password w0 @ [10]) 1000 ?s2"
    let ?s4 = "talk ACTIVATE_REGEX [10] 600 ?s3"
    from answer_tracks [OF h(3), of 800 LOGIN_REGEX "username w2 @ [10]"] tracks_names [OF h(3)]
    obtain w3 where a3: "answer (responder ms) LOGIN_REGEX (username w2 @ [10]) 800 (heard ?s1) w2 =
        Some (Inr (heard ?s2), w3)" "tracks ms w0 w3 ?s2"
      by auto
    from answer_tracks [OF a3(2), of 1000 PASSWORD_REGEX "password w3 @ [10]"] tracks_names [OF a3(2)]
    obtain w4 where a4: "answer (responder ms) PASSWORD_REGEX (password w3 @ [10]) 1000 (heard ?s2) w3 =
        Some (Inr (heard ?s3), w4)" "tracks ms w0 w4 ?s3"
      by auto
    from answer_tracks [OF a4(2), of 600 ACTIVATE_REGEX "[10]"]
    obtain w5 where a5: "answer (responder ms) ACTIVATE_REGEX [10] 600 (heard ?s3) w4 =
        Some (Inr (heard ?s4), w5)" "tracks ms w0 w5 ?s4"
      by auto
    have "poll (responder ms) start T (heard s) w = poll (responder ms) start T (heard ?s4) w5"
      using assms(2) h(1,2) False b1 a3(1) a4(1) a5(1) by (subst poll.simps) simp
    with False a5(2) show ?thesis
      by (auto simp: round_def)
  qed
qed

lemma poll_late:
  "T \<le> clock w - start \<Longrightarrow>
     poll d start T buf w = Some (Inr (False, str ''Prompt not detected (timeout).''), w)"
  by (subst poll.simps) simp


lemma tracks_start: "ser w = Some ([], rules) \<Longrightarrow>
    tracks ms w w \<lparr>heard = [], rules_left = rules, said = [], least = 0, drains = 0\<rparr>"
  by (simp add: tracks_def moved_def)

text \<open>
  Claim C7, amended.  Let the port answer the first newline with a text \<open>l\<close> in which the
  login pattern is found and the prompt pattern is not, the user name with a text \<open>p\<close>
  such that the password pattern is found in \<open>l p\<close>, and the password with a text \<open>q\<close>
  such that the prompt pattern is found in \<open>l p q\<close>, each at the first read after the
  write.  If the user name is not empty and the overall timeout is above
  \<open>2930 + 6 ms\<close> milliseconds, \<open>ms\<close> being the time of one read, then \<open>ensure_shell\<close>
  returns \<open>(True, "Shell prompt detected.")\<close>, and what it has written is three newlines,
  the user name, the password, a newline if the activation banner is found in \<open>l p q\<close>,
  and one more newline.
\<close>

theorem login_flow:
  assumes "ser w = Some ([], login_rules (username w) (password w) l p q)"
    and "username w \<noteq> []"
    and "re_search LOGIN_REGEX l" "\<not> re_search PROMPT_REGEX l"
    and "re_search PASSWORD_REGEX (l @ p)" "re_search PROMPT_REGEX (l @ p @ q)"
    and "2930 + 6 * int ms < T"
  shows "\<exists>w'. ensure_shell (responder ms) T w =
                 Some (Inr (True, str ''Shell prompt detected.''), w') \<and>
               writes (io w') =
                 writes (io w) @ [[10], [10], [10], username w @ [10], password w @ [10]] @
                 (if re_search ACTIVATE_REGEX (l @ p @ q) then [[10]] else []) @ [[10]]"
proof -
  let ?u = "username w" and ?p = "password w"
  let ?act = "re_search ACTIVATE_REGEX (l @ p @ q)"
  let ?s0 = "\<lparr>heard = [], rules_left = login_rules ?u ?p l p q, said = [], least = 0, drains = 0\<rparr>"
  let ?s2 = "\<lparr>heard = l, rules_left = [(?u @ [10], p), (?p @ [10], q)], said = [[10], [10]],
              least = 860, drains = 2\<rparr>"
  let ?s5 = "\<lparr>heard = l @ p @ q, rules_left = [],
              said = [[10], [10], [10], ?u @ [10], ?p @ [10]] @ (if ?act then [[10]] else []),
              least = 3070 + (if ?act then 600 else 0), drains = 5 + (if ?act then 1 else 0)\<rparr>"
  have w2: "(hear [10] 430 ^^ 2) ?s0 = ?s2"
    using assms(2) by (simp add: numeral_2_eq_2 hear_def login_rules_def)
  have r1: "hear [10] 410 ?s2 = ?s2\<lparr>said := [[10], [10], [10]], least := 1270, drains := 3\<rparr>"
    using assms(2) by (simp add: hear_def)
  have r5: "round ?u ?p ?s2 = ?s5"
    using assms(3,5) unfolding round_def r1 by (simp add: talk_def hear_def)
  have r6: "heard (hear [10] 410 ?s5) = l @ p @ q"
      "said (hear [10] 410 ?s5) = [[10], [10], [10], ?u @ [10], ?p @ [10]] @ (if ?act then [[10]] else []) @ [[10]]"
    by (simp_all add: hear_def)
  from wake_tracks [OF tracks_start [OF assms(1)], of ms 2] w2
  obtain w1 where a: "wake (responder ms) 2 [] w = Some (Inr l, w1)" "tracks ms w w1 ?s2"
    by auto
  have "clock w1 - clock w1 < T"
    using assms(7) by simp
  from poll_tracks [OF a(2) this] assms(4) r1 r5
  obtain w5 where b: "poll (responder ms) (clock w1) T l w1 = poll (responder ms) (clock w1) T (l @ p @ q) w5"
      "tracks ms w w5 ?s5"
    by (auto split: if_splits)
  have "clock w5 - clock w1 < T"
    using a(2) b(2) assms(7) by (auto simp: tracks_def moved_def split: if_splits)
  from poll_tracks [OF b(2) this] assms(6) r6(1)
  obtain w' where c: "poll (responder ms) (clock w1) T (l @ p @ q) w5 =
      Some (Inr (True, str ''Shell prompt detected.''), w')" "tracks ms w w' (hear [10] 410 ?s5)"
    by (auto split: if_splits)
  have "ensure_shell (responder ms) T w = Some (Inr (True, str ''Shell prompt detected.''), w')"
    using assms(1) a(1) b(1) c(1) by (simp add: ensure_shell_def)
  moreover have "writes (io w') = writes (io w) @ said (hear [10] 410 ?s5)"
    using c(2) by (simp add: tracks_def moved_def)
  ultimately show ?thesis
    unfolding r6(2) by blast
qed


lemma login_texts:
  "re_search LOGIN_REGEX (str ''login: '')"
  "\<not> re_search PROMPT_REGEX (str ''login: '')"
  "\<not> re_search PASSWORD_REGEX (str ''login: '')"
  "\<not> re_search ACTIVATE_REGEX (str ''login: '')"
  "re_search LOGIN_REGEX (str ''login: '' @ 10 # str ''Password: '')"
  "\<not> re_search PROMPT_REGEX (str ''login: '' @ 10 # str ''Password: '')"
  "re_search PASSWORD_REGEX (str ''login: '' @ 10 # str ''Password: '')"
  "\<not> re_search ACTIVATE_REGEX (str ''login: '' @ 10 # str ''Password: '')"
  "re_search PROMPT_REGEX (str ''login: '' @ 10 # str ''Password: '' @ 10 # str ''# '')"
  "\<not> re_search ACTIVATE_REGEX (str ''login: '' @ 10 # str ''Password: '' @ 10 # str ''# '')"
  by (simp_all add: pattern_eval)

lemma root_not_newline: "str ''root'' @ [10] \<noteq> [10]" "str ''root'' \<noteq> []" "[10] \<noteq> str ''root'' @ [10]"
  by (simp_all add: str_def)

theorem login_flow_witness:
  "\<exists>w'. ensure_shell (responder 100) 15000
           (session (Some ([], login_rules (str ''root'') [] (str ''login: '')
              (10 # str ''Password: '') (10 # str ''# '')))) =
             Some (Inr (True, str ''Shell prompt detected.''), w') \<and>
         writes (io w') = [[10], [10], [10], str ''root'' @ [10], [10], [10]]"
proof -
  let ?w = "session (Some ([], login_rules (str ''root'') [] (str ''login: '')
              (10 # str ''Password: '') (10 # str ''# '')))"
  have n: "username ?w = str ''root''" "password ?w = []" "io ?w = []"
    by (simp_all add: session_def)
  have "ser ?w = Some ([], login_rules (username ?w) (password ?w) (str ''login: '')
              (10 # str ''Password: '') (10 # str ''# ''))"
    by (simp add: session_def)
  from login_flow [OF this, of 100 15000] login_texts root_not_newline
  show ?thesis
    unfolding n by simp
qed


lemma ensure_shell_open:
  "ser w = Some s \<Longrightarrow> wake d 2 [] w = Some (Inr buf, w1) \<Longrightarrow>
     ensure_shell d T w = poll d (clock w1) T buf w1"
  by (simp add: ensure_shell_def)

lemma short_timeout_run:
  "map_option fst (ensure_shell (responder 100) 1000
      (session (Some ([], login_rules (str ''root'') [] (str ''login: '')
         (10 # str ''Password: '') (10 # str ''# ''))))) =
     Some (Inr (False, str ''Prompt not detected (timeout).''))"
proof -
  let ?l = "str ''login: ''" and ?p = "10 # str ''Password: ''" and ?q = "10 # str ''# ''"
  let ?w = "session (Some ([], login_rules (str ''root'') [] ?l ?p ?q))"
  let ?s0 = "\<lparr>heard = [], rules_left = login_rules (str ''root'') [] ?l ?p ?q, said = [],
              least = 0, drains = 0\<rparr>"
  let ?s2 = "\<lparr>heard = ?l, rules_left = [(str ''root'' @ [10], ?p), ([10], ?q)], said = [[10], [10]],
              least = 860, drains = 2\<rparr>"
  let ?s5 = "\<lparr>heard = ?l @ ?p @ ?q, rules_left = [],
              said = [[10], [10], [10], str ''root'' @ [10], [10]], least = 3070, drains = 5\<rparr>"
  have n: "username ?w = str ''root''" "password ?w = []" "ser ?w = Some ([], login_rules (str ''root'') [] ?l ?p ?q)"
    by (simp_all add: session_def)
  have w2: "(hear [10] 430 ^^ 2) ?s0 = ?s2"
    using root_not_newline by (simp add: numeral_2_eq_2 hear_def login_rules_def)
  have r1: "hear [10] 410 ?s2 = ?s2\<lparr>said := [[10], [10], [10]], least := 1270, drains := 3\<rparr>"
    using root_not_newline by (simp add: hear_def)
  have r5: "round (str ''root'') [] ?s2 = ?s5"
    unfolding round_def r1 using login_texts by (simp add: talk_def hear_def)
  from wake_tracks [OF tracks_start [OF n(3)], of 100 2] w2
  obtain w1 where a: "wake (responder 100) 2 [] ?w = Some (Inr ?l, w1)" "tracks 100 ?w w1 ?s2"
    by auto
  have "clock w1 - clock w1 < 1000"
    by simp
  from poll_tracks [OF a(2) this, unfolded n r5 r1] login_texts
  obtain w5 where b: "poll (responder 100) (clock w1) 1000 ?l w1 =
        poll (responder 100) (clock w1) 1000 (?l @ ?p @ ?q) w5" "tracks 100 ?w w5 ?s5"
    by (auto split: if_splits)
  have "1000 \<le> clock w5 - clock w1"
    using a(2) b(2) by (simp add: tracks_def moved_def)
  from poll_late [OF this]
  have "ensure_shell (responder 100) 1000 ?w =
      Some (Inr (False, str ''Prompt not detected (timeout).''), w5)"
    unfolding ensure_shell_open [OF n(3) a(1)] b(1) by simp
  then show ?thesis by simp
qed

lemma late_password_run:
  "map_option (writes \<circ> io \<circ> snd) (ensure_shell (responder 100) 15000
      ((session (Some ([], [([10], str ''login: ''), (str ''root'' @ [10], []),
         ([10], 10 # str ''Password: ''), (str ''pw'' @ [10], 10 # str ''# '')])))
       \<lparr>password := str ''pw''\<rparr>)) =
     Some [[10], [10], [10], str ''root'' @ [10], [10], str ''root'' @ [10], str ''pw'' @ [10], [10]]"
proof -
  let ?l = "str ''login: ''" and ?p = "10 # str ''Password: ''" and ?q = "10 # str ''# ''"
  let ?u = "str ''root'' @ [10]" and ?pw = "str ''pw'' @ [10]"
  let ?rules = "[([10], ?l), (?u, []), ([10], ?p), (?pw, ?q)]"
  let ?w = "(session (Some ([], ?rules)))\<lparr>password := str ''pw''\<rparr>"
  let ?s0 = "\<lparr>heard = [], rules_left = ?rules, said = [], least = 0, drains = 0\<rparr>"
  let ?s2 = "\<lparr>heard = ?l, rules_left = [(?u, []), ([10], ?p), (?pw, ?q)], said = [[10], [10]],
              least = 860, drains = 2\<rparr>"
  let ?s4 = "\<lparr>heard = ?l, rules_left = [([10], ?p), (?pw, ?q)], said = [[10], [10], [10], ?u],
              least = 2070, drains = 4\<rparr>"
  let ?s7 = "\<lparr>heard = ?l @ ?p @ ?q, rules_left = [], said = [[10], [10], [10], ?u, [10], ?u, ?pw],
              least = 4280, drains = 7\<rparr>"
  have n: "username ?w = str ''root''" "password ?w = str ''pw''" "ser ?w = Some ([], ?rules)"
    "io ?w = []"
    by (simp_all add: session_def)
  have ne: "?u \<noteq> ?pw" "[10] \<noteq> ?pw"
    by (simp_all add: str_def)
  have w2: "(hear [10] 430 ^^ 2) ?s0 = ?s2"
    using root_not_newline by (simp add: numeral_2_eq_2 hear_def)
  have r1: "hear [10] 410 ?s2 = ?s2\<lparr>said := [[10], [10], [10]], least := 1270, drains := 3\<rparr>"
    using root_not_newline by (simp add: hear_def)
  have r4: "round (str ''root'') (str ''pw'') ?s2 = ?s4"
    unfolding round_def r1 using login_texts by (simp add: talk_def hear_def)
  have r5: "hear [10] 410 ?s4 = \<lparr>heard = ?l @ ?p, rules_left = [(?pw, ?q)],
      said = [[10], [10], [10], ?u, [10]], least = 2480, drains = 5\<rparr>"
    by (simp add: hear_def)
  have r7: "round (str ''root'') (str ''pw'') ?s4 = ?s7"
    unfolding round_def r5 using login_texts ne by (simp add: talk_def hear_def)
  have r8: "heard (hear [10] 410 ?s7) = ?l @ ?p @ ?q"
    "said (hear [10] 410 ?s7) = [[10], [10], [10], ?u, [10], ?u, ?pw, [10]]"
    by (simp_all add: hear_def)
  from wake_tracks [OF tracks_start [OF n(3)], of 100 2] w2
  obtain w1 where a: "wake (responder 100) 2 [] ?w = Some (Inr ?l, w1)" "tracks 100 ?w w1 ?s2"
    by auto
  have "clock w1 - clock w1 < 15000"
    by simp
  from poll_tracks [OF a(2) this, unfolded n r4 r1] login_texts
  obtain w4 where b: "poll (responder 100) (clock w1) 15000 ?l w1 =
        poll (responder 100) (clock w1) 15000 ?l w4" "tracks 100 ?w w4 ?s4"
    by (auto split: if_splits)
  have "clock w4 - clock w1 < 15000"
    using a(2) b(2) by (simp add: tracks_def moved_def)
  from poll_tracks [OF b(2) this, unfolded n r7 r5] login_texts
  obtain w7 where c: "poll (responder 100) (clock w1) 15000 ?l w4 =
        poll (responder 100) (clock w1) 15000 (?l @ ?p @ ?q) w7" "tracks 100 ?w w7 ?s7"
    by (auto split: if_splits)
  have "clock w7 - clock w1 < 15000"
    using a(2) c(2) by (simp add: tracks_def moved_def)
  from poll_tracks [OF c(2) this] login_texts r8(1)
  obtain w' where d: "poll (responder 100) (clock w1) 15000 (?l @ ?p @ ?q) w7 =
      Some (Inr (True, str ''Shell prompt detected.''), w')" "tracks 100 ?w w' (hear [10] 410 ?s7)"
    by (auto split: if_splits)
  have "ensure_shell (responder 100) 15000 ?w = Some (Inr (True, str ''Shell prompt detected.''), w')"
    unfolding ensure_shell_open [OF n(3) a(1)] b(1) c(1) d(1) by simp
  moreover have "writes (io w') = said (hear [10] 410 ?s7)"
    using d(2) unfolding tracks_def moved_def n(4) by simp
  ultimately show ?thesis
    unfolding r8(2) by simp
qed

text \<open>
  Claim C7 as stated fails twice.  With an overall timeout of one second the first round
  of the poll loop, which sends both credentials, ends after the timeout, and the result
  is \<open>False\<close> although the prompt has arrived.  And when the password line comes only
  with the newline of the next round (after the user name, as the claim asks), the login
  pattern is still found in the buffer and the user name is written a second time.
\<close>

theorem login_flow_counterexample:
  "map_option fst (ensure_shell (responder 100) 1000
      (session (Some ([], login_rules (str ''root'') [] (str ''login: '')
         (10 # str ''Password: '') (10 # str ''# ''))))) =
     Some (Inr (False, str ''Prompt not detected (timeout).'')) \<and>
   map_option (writes \<circ> io \<circ> snd) (ensure_shell (responder 100) 15000
      ((session (Some ([], [([10], str ''login: ''), (str ''root'' @ [10], []),
         ([10], 10 # str ''Password: ''), (str ''pw'' @ [10], 10 # str ''# '')])))
       \<lparr>password := str ''pw''\<rparr>)) =
     Some [[10], [10], [10], str ''root'' @ [10], [10], str ''root'' @ [10], str ''pw'' @ [10], [10]]"
  using short_timeout_run late_password_run by (rule conjI)

end
